theory Spec2Isabelle
  imports Complex_Main
begin

section \<open>The crawler of src/crawler.ts as a state machine\<close>

text \<open>
  The class \<open>Crawler\<close> is asynchronous JavaScript: every method runs synchronously up to
  its next \<open>await\<close>, where it suspends, and the event loop resumes it later. The
  embedding makes that explicit. The fields of the class are a record; each synchronous
  segment of a method is a function from state to state; a suspended segment is a value
  of type \<open>cont\<close> kept in the \<open>pending\<close> list of the state; and a step of the event loop
  (\<open>step\<close>) is either a call of a public method or the resumption of one pending
  continuation. Every observable effect (a hook invocation, a \<open>fetch\<close>, a
  \<open>setTimeout\<close>, a console line) is appended to \<open>trace\<close>.

  What is abstracted: wall-clock time (a timer records its duration, and may fire at any
  later step); the order in which the event loop resumes ready continuations (any
  pending continuation may be resumed next, which includes every order the JavaScript
  event loop can produce); the bodies of the error handler and of the end handler (only
  their invocations are recorded, and they are taken not to throw, as is the gate);
  \<open>Math.random()\<close> is a real number read from the stream \<open>randoms\<close> (its product with
  the array length is rounded as the multiplication of the code rounds it); numbers that
  the code uses as counters are integers.
\<close>

subsection \<open>Values\<close>

text \<open>A thrown value: an instance of \<open>Error\<close> with its message, or any other value.\<close>

datatype thrown = ErrorObj string | OtherValue string

text \<open>The field \<open>proxy: string | string[]\<close>.\<close>

datatype proxy_setting = Single string | Pool "string list"

text \<open>The \<open>FetchRequestInit\<close> object that \<open>fetchUrl\<close> assembles.\<close>

record request =
  req_method :: string
  req_headers :: "string \<rightharpoonup> string"
  req_proxy :: "string option"

text \<open>
  How the awaited \<open>fetch\<close> (and \<open>response.text()\<close>) of \<open>fetchUrl\<close> ends: a response
  with \<open>ok\<close> and its body, a response that is not \<open>ok\<close> with its status as the template
  string prints it, or a rejection with the value thrown.
\<close>

datatype net_result = RespOk string | RespNotOk string | Rejected thrown

text \<open>
  The suspension points of the class.
  \<^item> \<open>AwaitGate url b\<close>: \<open>checkQueue\<close> at \<open>await this.beforeRequestHandler(url)\<close>, the
    handler having answered \<open>b\<close>;
  \<^item> \<open>AwaitSleep ms\<close>: \<open>checkQueue\<close> at \<open>await sleep(1000)\<close>;
  \<^item> \<open>AwaitDelay ms url r fin\<close>: \<open>fetchPage(url, r)\<close> at \<open>await sleep(this.delay)\<close>;
  \<^item> \<open>AwaitFetch url r fin\<close>: \<open>fetchPage(url, r)\<close> inside \<open>fetchUrl\<close> at
    \<open>await fetch(url, options)\<close>;
  \<^item> \<open>RetryTimer ms url r\<close>: the callback \<open>() => this.fetchPage(url, r)\<close> given to
    \<open>setTimeout\<close>;
  \<^item> \<open>FinallyCb\<close>: the \<open>.finally\<close> callback of a worker promise that has settled.

  The flag \<open>fin\<close> says whether the call of \<open>fetchPage\<close> carries the \<open>.finally\<close>
  callback: true for the call in \<open>checkQueue\<close>, false for the call in the timer.
\<close>

datatype cont =
    AwaitGate string bool
  | AwaitSleep int
  | AwaitDelay int string int bool
  | AwaitFetch string int bool
  | RetryTimer int string int
  | FinallyCb

datatype event =
    Log string
  | LogRetrying string int
  | LogUnexpected string thrown
  | GateCalled string
  | EndCalled
  | Fetch string request
  | ItemProcessed string string
  | ErrorHandled thrown string
  | TimerSet int string int

record crawler =
  taskQueue :: "string list"
  active :: bool
  paused :: bool
  concurrency :: int
  activeRequests :: int
  retries :: int
  delay :: int
  proxy :: proxy_setting
  cookies :: string
  headers :: "string \<rightharpoonup> string"
  beforeRequestHandler :: "string \<Rightarrow> bool"
  itemProcessor :: "string \<Rightarrow> string \<Rightarrow> thrown option"
  pending :: "cont list"
  trace :: "event list"
  randoms :: "nat \<Rightarrow> real"
  drawn :: nat

text \<open>\<open>new Crawler(concurrency)\<close>, with the stream that \<open>Math.random()\<close> will read.\<close>

definition Crawler :: "int \<Rightarrow> (nat \<Rightarrow> real) \<Rightarrow> crawler" where
  "Crawler c rs =
     \<lparr>taskQueue = [], active = False, paused = False, concurrency = c,
      activeRequests = 0, retries = 0, delay = 0, proxy = Single [], cookies = [],
      headers = Map.empty, beforeRequestHandler = (\<lambda>_. True),
      itemProcessor = (\<lambda>_ _. None), pending = [], trace = [], randoms = rs, drawn = 0\<rparr>"

definition emit :: "event \<Rightarrow> crawler \<Rightarrow> crawler" where
  "emit e s = s\<lparr>trace := trace s @ [e]\<rparr>"

definition suspend :: "cont \<Rightarrow> crawler \<Rightarrow> crawler" where
  "suspend k s = s\<lparr>pending := pending s @ [k]\<rparr>"

subsection \<open>The task queue\<close>

text \<open>
  Modelled from the spec: \<open>unique\<close> is imported from \<open>./utils\<close>, which is not among the
  sources. The specification says of it: identifiers already present anywhere in the
  queue are dropped, the relative order of the existing entries is preserved, and a new
  identifier stays at the tail. So \<open>unique\<close> keeps the first occurrence of every element.
\<close>

fun unique :: "string list \<Rightarrow> string list" where
  "unique [] = []"
| "unique (x # xs) = x # unique (filter (\<lambda>y. y \<noteq> x) xs)"

text \<open>\<open>Array.prototype.shift\<close>: the first element, or \<open>undefined\<close> on an empty array.\<close>

definition shift :: "string list \<Rightarrow> string option \<times> string list" where
  "shift q = (case q of [] \<Rightarrow> (None, []) | x # xs \<Rightarrow> (Some x, xs))"

subsection \<open>The request builder (the first half of \<open>fetchUrl\<close>)\<close>

text \<open>
  \<open>Math.random() * this.proxy.length\<close> is a multiplication of JavaScript numbers: the
  exact product rounded to the nearest binary64 value, ties to the even significand. The
  rounding is modelled for the finite values that occur here: the unit in the last place
  of \<open>x\<close> is \<open>2\<close> to the power \<open>e - 52\<close>, where \<open>e\<close> is the binary exponent of \<open>x\<close>, at least
  \<open>-1022\<close> (below that the values are subnormal and share one unit).
\<close>

definition round_half_even :: "real \<Rightarrow> int" where
  "round_half_even y =
     (let f = \<lfloor>y\<rfloor>
      in if y - of_int f < 1 / 2 then f
         else if 1 / 2 < y - of_int f then f + 1
         else if even f then f else f + 1)"

definition binary64_exponent :: "real \<Rightarrow> int" where
  "binary64_exponent x = max \<lfloor>log 2 x\<rfloor> (- 1022)"

definition binary64_ulp :: "real \<Rightarrow> real" where
  "binary64_ulp x = 2 powr (of_int (binary64_exponent x) - 52)"

definition binary64 :: "real \<Rightarrow> real" where
  "binary64 x =
     (if x = 0 then 0
      else if 0 < x then of_int (round_half_even (x / binary64_ulp x)) * binary64_ulp x
      else - (of_int (round_half_even (- x / binary64_ulp (- x))) * binary64_ulp (- x)))"

text \<open>\<open>Math.floor(Math.random() * this.proxy.length)\<close> for the value \<open>r\<close> of \<open>Math.random()\<close>.\<close>

definition random_index :: "real \<Rightarrow> nat \<Rightarrow> int" where
  "random_index r n = \<lfloor>binary64 (r * real n)\<rfloor>"

text \<open>
  \<open>this.proxy[...]\<close> at that index, followed by \<open>if (proxy)\<close>: an index outside the array
  reads \<open>undefined\<close>, and \<open>undefined\<close> and the empty string are both falsy.
\<close>

definition pick_proxy :: "real \<Rightarrow> string list \<Rightarrow> string option" where
  "pick_proxy r xs =
     (let i = random_index r (length xs)
      in if 0 \<le> i \<and> i < int (length xs) \<and> xs ! nat i \<noteq> [] then Some (xs ! nat i) else None)"

definition build_options :: "crawler \<Rightarrow> real \<Rightarrow> request" where
  "build_options s r =
     \<lparr>req_method = ''GET'',
      req_headers = (headers s)(''Cookie'' \<mapsto> cookies s),
      req_proxy = (case proxy s of
                     Single p \<Rightarrow> if p \<noteq> [] then Some p else None
                   | Pool xs \<Rightarrow> pick_proxy r xs)\<rparr>"

text \<open>
  \<open>fetchUrl\<close> up to its \<open>await fetch(url, options)\<close>. \<open>Math.random()\<close> is called only
  when the proxy is an array.
\<close>

definition fetchUrl :: "string \<Rightarrow> int \<Rightarrow> bool \<Rightarrow> crawler \<Rightarrow> crawler" where
  "fetchUrl url r fin s =
     (let req = build_options s (randoms s (drawn s));
          s1 = (case proxy s of Single p \<Rightarrow> s | Pool xs \<Rightarrow> s\<lparr>drawn := drawn s + 1\<rparr>)
      in suspend (AwaitFetch url r fin) (emit (Fetch url req) s1))"

text \<open>What \<open>fetchUrl\<close> returns or throws once the network has answered.\<close>

definition fetchUrl_result :: "string \<Rightarrow> net_result \<Rightarrow> thrown + string" where
  "fetchUrl_result url res =
     (case res of
        RespOk body \<Rightarrow> Inr body
      | RespNotOk status \<Rightarrow>
          Inl (ErrorObj (''Failed to fetch '' @ url @ '': '' @
                         ''Request Failed. Status Code: '' @ status))
      | Rejected (ErrorObj m) \<Rightarrow> Inl (ErrorObj (''Failed to fetch '' @ url @ '': '' @ m))
      | Rejected (OtherValue v) \<Rightarrow> Inl (OtherValue v))"

subsection \<open>The worker \<open>fetchPage\<close>\<close>

text \<open>\<open>fetchPage(url, r)\<close> from its entry to its first \<open>await\<close>.\<close>

definition fetchPage :: "string \<Rightarrow> int \<Rightarrow> bool \<Rightarrow> crawler \<Rightarrow> crawler" where
  "fetchPage url r fin s =
     (if delay s > 0 then suspend (AwaitDelay (delay s) url r fin) s
      else fetchUrl url r fin s)"

text \<open>The \<open>catch\<close> block of \<open>fetchPage\<close>.\<close>

definition on_catch :: "string \<Rightarrow> int \<Rightarrow> thrown \<Rightarrow> crawler \<Rightarrow> crawler" where
  "on_catch url r e s =
     (if r > 0 then
        suspend (RetryTimer 1000 url (r - 1))
          (emit (TimerSet 1000 url (r - 1)) (emit (LogRetrying url r) s))
      else (case e of
              ErrorObj m \<Rightarrow> emit (ErrorHandled e url) s
            | OtherValue v \<Rightarrow> emit (LogUnexpected url e) s))"

text \<open>The promise of \<open>fetchPage\<close> settles: its \<open>.finally\<close> callback, if any, is queued.\<close>

definition settle :: "bool \<Rightarrow> crawler \<Rightarrow> crawler" where
  "settle fin s = (if fin then suspend FinallyCb s else s)"

text \<open>\<open>fetchPage\<close> from the answer of the network to its end.\<close>

definition fetchPage_resume :: "string \<Rightarrow> int \<Rightarrow> bool \<Rightarrow> net_result \<Rightarrow> crawler \<Rightarrow> crawler" where
  "fetchPage_resume url r fin res s =
     settle fin
       (case fetchUrl_result url res of
          Inr html \<Rightarrow>
            (let s1 = emit (Log (''Response received successfully from '' @ url)) s;
                 s2 = emit (Log (''Page fetched: '' @ url)) s1;
                 s3 = emit (ItemProcessed html url) s2
             in case itemProcessor s3 html url of
                  None \<Rightarrow> s3
                | Some e \<Rightarrow> on_catch url r e s3)
        | Inl e \<Rightarrow> on_catch url r e s)"

subsection \<open>The drain loop \<open>checkQueue\<close>\<close>

text \<open>
  One call of \<open>checkQueue\<close> from the test of the \<open>while\<close> to the next \<open>await\<close>. Both
  branches of the body suspend, so a resumed body returns to the test of the loop, which
  is \<open>checkQueue\<close> again.
\<close>

definition checkQueue :: "crawler \<Rightarrow> crawler" where
  "checkQueue s =
     (if active s \<and> \<not> paused s \<and> activeRequests s < concurrency s \<and> length (taskQueue s) > 0
      then
        (let (popped, rest) = shift (taskQueue s);
             s1 = s\<lparr>taskQueue := rest\<rparr>;
             poll = suspend (AwaitSleep 1000) (emit EndCalled s1)
         in case popped of
              None \<Rightarrow> poll
            | Some url \<Rightarrow>
                if url \<noteq> [] then
                  suspend (AwaitGate url (beforeRequestHandler s1 url)) (emit (GateCalled url) s1)
                else poll)
      else s)"

text \<open>The resumption of each continuation but \<open>AwaitFetch\<close>, which needs the answer.\<close>

fun wake :: "cont \<Rightarrow> crawler \<Rightarrow> crawler" where
  "wake (AwaitGate url proceed) s =
     checkQueue
       (if proceed then
          fetchPage url (retries s) True (s\<lparr>activeRequests := activeRequests s + 1\<rparr>)
        else emit (Log (''Before request handler blocked URL: '' @ url)) s)"
| "wake (AwaitSleep ms) s = checkQueue s"
| "wake (AwaitDelay ms url r fin) s = fetchUrl url r fin s"
| "wake (RetryTimer ms url r) s = fetchPage url r False s"
| "wake FinallyCb s =
     (let s1 = s\<lparr>activeRequests := activeRequests s - 1\<rparr>
      in if active s1 \<and> \<not> paused s1 then checkQueue s1 else s1)"
| "wake (AwaitFetch url r fin) s = s"

subsection \<open>The public methods\<close>

definition setProxy :: "proxy_setting \<Rightarrow> crawler \<Rightarrow> crawler" where
  "setProxy p s = s\<lparr>proxy := p\<rparr>"

definition setRetries :: "int \<Rightarrow> crawler \<Rightarrow> crawler" where
  "setRetries n s = s\<lparr>retries := n\<rparr>"

definition setDelay :: "int \<Rightarrow> crawler \<Rightarrow> crawler" where
  "setDelay d s = s\<lparr>delay := d\<rparr>"

definition setCookies :: "string \<Rightarrow> crawler \<Rightarrow> crawler" where
  "setCookies c s = (emit (Log (''Setting cookies: '' @ c)) s)\<lparr>cookies := c\<rparr>"

definition setHeaders :: "(string \<rightharpoonup> string) \<Rightarrow> crawler \<Rightarrow> crawler" where
  "setHeaders h s = s\<lparr>headers := h\<rparr>"

definition addTask :: "string \<Rightarrow> crawler \<Rightarrow> crawler" where
  "addTask url s =
     (let s1 = s\<lparr>taskQueue := unique (taskQueue s @ [url])\<rparr>
      in if active s1 then checkQueue s1 else s1)"

definition start :: "crawler \<Rightarrow> crawler" where
  "start s =
     (if active s then emit (Log ''Crawler is already running.'') s
      else emit (Log ''Crawler started.'') (checkQueue (s\<lparr>active := True, paused := False\<rparr>)))"

definition stop :: "crawler \<Rightarrow> crawler" where
  "stop s = emit (Log ''Crawler stopped.'') (s\<lparr>active := False\<rparr>)"

definition pause :: "crawler \<Rightarrow> crawler" where
  "pause s = emit (Log ''Crawler paused.'') (s\<lparr>paused := True\<rparr>)"

definition resume :: "crawler \<Rightarrow> crawler" where
  "resume s =
     (if active s \<and> paused s then
        emit (Log ''Crawler resumed.'') (checkQueue (s\<lparr>paused := False\<rparr>))
      else emit (Log ''Cannot resume crawler. It is either not active or not paused.'') s)"

definition onItemProcess :: "(string \<Rightarrow> string \<Rightarrow> thrown option) \<Rightarrow> crawler \<Rightarrow> crawler" where
  "onItemProcess f s = s\<lparr>itemProcessor := f\<rparr>"

definition beforeRequest :: "(string \<Rightarrow> bool) \<Rightarrow> crawler \<Rightarrow> crawler" where
  "beforeRequest g s = s\<lparr>beforeRequestHandler := g\<rparr>"

definition getTaskCount :: "crawler \<Rightarrow> nat" where
  "getTaskCount s = length (taskQueue s)"

subsection \<open>The event loop\<close>

datatype action =
    AddTask string | Start | Stop | Pause | Resume
  | SetProxy proxy_setting | SetRetries int | SetDelay int | SetCookies string
  | SetHeaders "string \<rightharpoonup> string"
  | OnItemProcess "string \<Rightarrow> string \<Rightarrow> thrown option"
  | BeforeRequest "string \<Rightarrow> bool"
  | Wake cont
  | Respond string int bool net_result

text \<open>A continuation can be resumed only while it is pending, and then once.\<close>

definition take :: "cont \<Rightarrow> crawler \<Rightarrow> crawler option" where
  "take k s = (if k \<in> set (pending s) then Some (s\<lparr>pending := remove1 k (pending s)\<rparr>) else None)"

fun step :: "action \<Rightarrow> crawler \<Rightarrow> crawler option" where
  "step (AddTask u) s = Some (addTask u s)"
| "step Start s = Some (start s)"
| "step Stop s = Some (stop s)"
| "step Pause s = Some (pause s)"
| "step Resume s = Some (resume s)"
| "step (SetProxy p) s = Some (setProxy p s)"
| "step (SetRetries n) s = Some (setRetries n s)"
| "step (SetDelay d) s = Some (setDelay d s)"
| "step (SetCookies c) s = Some (setCookies c s)"
| "step (SetHeaders h) s = Some (setHeaders h s)"
| "step (OnItemProcess f) s = Some (onItemProcess f s)"
| "step (BeforeRequest g) s = Some (beforeRequest g s)"
| "step (Wake k) s =
     (case k of
        AwaitFetch u r fin \<Rightarrow> None
      | _ \<Rightarrow> map_option (wake k) (take k s))"
| "step (Respond u r fin res) s =
     map_option (fetchPage_resume u r fin res) (take (AwaitFetch u r fin) s)"

fun exec :: "action list \<Rightarrow> crawler \<Rightarrow> crawler option" where
  "exec [] s = Some s"
| "exec (a # as) s = (case step a s of None \<Rightarrow> None | Some s' \<Rightarrow> exec as s')"

text \<open>
  The lifecycle states of the specification, read off the two flags. \<open>Idle\<close> and
  \<open>Stopped\<close> are the same state of the fields (\<open>active = false\<close>).
\<close>

datatype lifecycle = Inactive | Running | Paused

definition phase :: "crawler \<Rightarrow> lifecycle" where
  "phase s = (if \<not> active s then Inactive else if paused s then Paused else Running)"

text \<open>A stream for \<open>Math.random()\<close> that always answers 0, for concrete runs.\<close>

definition zeros :: "nat \<Rightarrow> real" where
  "zeros i = 0"

subsection \<open>Observations on a state and on a trace\<close>

text \<open>
  The network calls that hold a concurrency slot: the pending \<open>fetch\<close> of a worker that
  \<open>checkQueue\<close> started (a retry started by the timer is not counted).
\<close>

fun slot_fetch :: "cont \<Rightarrow> bool" where
  "slot_fetch (AwaitFetch u r fin) = fin"
| "slot_fetch _ = False"

definition outstanding :: "crawler \<Rightarrow> nat" where
  "outstanding s = length (filter slot_fetch (pending s))"

text \<open>The \<open>.finally\<close> callbacks queued: the slot releases still to come.\<close>

definition finally_pending :: "crawler \<Rightarrow> nat" where
  "finally_pending s = length (filter (\<lambda>k. k = FinallyCb) (pending s))"

text \<open>The continuations of a worker, and the events only a worker produces.\<close>

fun worker_cont :: "cont \<Rightarrow> bool" where
  "worker_cont (AwaitGate u b) = False"
| "worker_cont (AwaitSleep ms) = False"
| "worker_cont _ = True"

fun worker_event :: "event \<Rightarrow> bool" where
  "worker_event (Fetch u req) = True"
| "worker_event (ItemProcessed h u) = True"
| "worker_event (ErrorHandled e u) = True"
| "worker_event (TimerSet ms u r) = True"
| "worker_event (LogRetrying u r) = True"
| "worker_event _ = False"



fun gate_calls :: "event list \<Rightarrow> string list" where
  "gate_calls [] = []"
| "gate_calls (GateCalled u # t) = u # gate_calls t"
| "gate_calls (_ # t) = gate_calls t"

text \<open>The calls of the end handler.\<close>

fun end_call :: "event \<Rightarrow> bool" where
  "end_call EndCalled = True"
| "end_call _ = False"


text \<open>Hooks for concrete runs.\<close>

definition deny_all :: "string \<Rightarrow> bool" where
  "deny_all url = False"



subsection \<open>One worker and its retries\<close>

text \<open>
  The continuations of the workers for the identifier \<open>u\<close> (a worker and the retries it
  schedules), the retry budget a continuation carries, and the events of the claim about
  retries: the timers set for \<open>u\<close> and the calls of the error handler for \<open>u\<close>.
\<close>

fun chain_cont :: "string \<Rightarrow> cont \<Rightarrow> bool" where
  "chain_cont u (AwaitFetch v r fin) = (v = u)"
| "chain_cont u (AwaitDelay ms v r fin) = (v = u)"
| "chain_cont u (RetryTimer ms v r) = (v = u)"
| "chain_cont u _ = False"

fun budget :: "cont \<Rightarrow> int" where
  "budget (AwaitFetch v r fin) = r"
| "budget (AwaitDelay ms v r fin) = r"
| "budget (RetryTimer ms v r) = r"
| "budget _ = 0"

fun chain_event :: "string \<Rightarrow> event \<Rightarrow> bool" where
  "chain_event u (TimerSet ms v r) = (v = u)"
| "chain_event u (ErrorHandled e v) = (v = u)"
| "chain_event u _ = False"

fun error_call :: "string \<Rightarrow> event \<Rightarrow> bool" where
  "error_call u (ErrorHandled (ErrorObj m) v) = (v = u)"
| "error_call u _ = False"

text \<open>A fetch attempt that fails with an \<open>Error\<close>: a response that is not \<open>ok\<close>, or a rejection with an \<open>Error\<close>.\<close>

fun fails_with_error :: "net_result \<Rightarrow> bool" where
  "fails_with_error (RespOk body) = False"
| "fails_with_error (RespNotOk status) = True"
| "fails_with_error (Rejected (ErrorObj m)) = True"
| "fails_with_error (Rejected (OtherValue v)) = False"

text \<open>
  The steps of a run in which no second worker for \<open>u\<close> is dispatched and every fetch of
  \<open>u\<close> fails with an \<open>Error\<close>. Every other step is allowed, in any order.
\<close>

fun allowed :: "string \<Rightarrow> action \<Rightarrow> bool" where
  "allowed u (Wake (AwaitGate v b)) = (\<not> (v = u \<and> b))"
| "allowed u (Respond v r fin res) = (v \<noteq> u \<or> fails_with_error res)"
| "allowed u _ = True"

text \<open>The timers of the retries with budgets \<open>N - 1\<close> down to \<open>b\<close>, in the order they are set.\<close>

definition retry_timers :: "string \<Rightarrow> int \<Rightarrow> int \<Rightarrow> event list" where
  "retry_timers u N b = map (\<lambda>j. TimerSet 1000 u j) (rev [b..N - 1])"

text \<open>
  The invariant of such a run, for a worker started with budget \<open>N\<close> when the events of
  \<open>u\<close> were \<open>base\<close>: either one continuation for \<open>u\<close> is pending, with budget \<open>b\<close>,
  and the timers for the budgets above \<open>b\<close> have been set; or none is pending, all \<open>N\<close>
  timers have been set and the error handler has then been called once.
\<close>

definition chain_inv :: "string \<Rightarrow> int \<Rightarrow> event list \<Rightarrow> crawler \<Rightarrow> bool" where
  "chain_inv u N base s =
     (case filter (chain_cont u) (pending s) of
        [] \<Rightarrow> filter (chain_event u) (trace s) \<noteq> [] \<and>
              butlast (filter (chain_event u) (trace s)) = base @ retry_timers u N 0 \<and>
              error_call u (last (filter (chain_event u) (trace s)))
      | [k] \<Rightarrow> 0 \<le> budget k \<and> budget k \<le> N \<and>
               filter (chain_event u) (trace s) = base @ retry_timers u N (budget k)
      | _ \<Rightarrow> False)"

text \<open>
  The run of one worker whose attempts all fail, nothing else being scheduled in between:
  each attempt waits for the delay if one is configured and receives its answer; after
  each attempt but the last the retry timer fires.
\<close>

definition attempt :: "int \<Rightarrow> string \<Rightarrow> int \<Rightarrow> bool \<Rightarrow> net_result \<Rightarrow> action list" where
  "attempt d u r fin res =
     (if d > 0 then [Wake (AwaitDelay d u r fin)] else []) @ [Respond u r fin res]"

fun failing_run :: "int \<Rightarrow> string \<Rightarrow> nat \<Rightarrow> bool \<Rightarrow> net_result list \<Rightarrow> action list" where
  "failing_run d u n fin [] = []"
| "failing_run d u 0 fin (res # rest) = attempt d u 0 fin res"
| "failing_run d u (Suc n) fin (res # rest) =
     attempt d u (int (Suc n)) fin res @
     Wake (RetryTimer 1000 u (int n)) # failing_run d u n False rest"

text \<open>
  States for concrete runs. \<open>dispatched\<close>: after \<open>setRetries(2)\<close>, \<open>addTask("u")\<close> and
  \<open>start()\<close>, the state in which the resumed gate continuation of \<open>u\<close> calls \<open>fetchPage\<close>
  (the continuation taken, the counter incremented); with it, three failing answers.
  \<open>gate_closed\<close>: a started crawler whose gate denies everything, in the state in which
  \<open>addTask("u")\<close> calls the drain loop.
\<close>

definition dispatched :: crawler where
  "dispatched =
     (start (addTask ''u'' (setRetries 2 (Crawler 1 zeros))))\<lparr>pending := [], activeRequests := 1\<rparr>"

definition three_failures :: "net_result list" where
  "three_failures = [RespNotOk ''500'', Rejected (ErrorObj ''down''), RespNotOk ''503'']"

definition gate_closed :: crawler where
  "gate_closed = (start (beforeRequest deny_all (Crawler 2 zeros)))\<lparr>taskQueue := [''u'']\<rparr>"

subsection \<open>Draining the queue\<close>

text \<open>The identifiers for which \<open>fetch\<close> has been called, in the order of the trace.\<close>

fun fetch_calls :: "event list \<Rightarrow> string list" where
  "fetch_calls [] = []"
| "fetch_calls (Fetch u req # t) = u # fetch_calls t"
| "fetch_calls (_ # t) = fetch_calls t"


text \<open>
  The continuations behind a unit of \<open>activeRequests\<close>: a worker that \<open>checkQueue\<close>
  started, in its delay or in its network call, and a queued \<open>.finally\<close> callback.
  \<open>slots_accounted\<close>: the counter is the number of these continuations.
\<close>

fun holds_slot :: "cont \<Rightarrow> bool" where
  "holds_slot (AwaitDelay d u r fin) = fin"
| "holds_slot (AwaitFetch u r fin) = fin"
| "holds_slot FinallyCb = True"
| "holds_slot _ = False"

definition slots_accounted :: "crawler \<Rightarrow> bool" where
  "slots_accounted s \<longleftrightarrow> activeRequests s = int (length (filter holds_slot (pending s)))"

text \<open>The identifiers of the workers that hold a slot and still wait in their delay.\<close>

fun delayed_url :: "cont \<Rightarrow> string list" where
  "delayed_url (AwaitDelay d u r fin) = (if fin then [u] else [])"
| "delayed_url _ = []"

definition delayed :: "crawler \<Rightarrow> string list" where
  "delayed s = concat (map delayed_url (pending s))"


text \<open>
  \<open>ready x v rest\<close>: the drain loop has just popped \<open>v\<close> and waits for the gate (or, for
  the empty string, for its poll), the crawler runs and a slot is free.
  \<open>passes x v rest y\<close>: from there the loop has dealt with \<open>v\<close> and is in the same
  position for the next identifier of \<open>rest\<close>, or has emptied the queue.
\<close>

definition ready :: "crawler \<Rightarrow> string \<Rightarrow> string list \<Rightarrow> bool" where
  "ready x v rest \<longleftrightarrow>
     active x \<and> \<not> paused x \<and> activeRequests x < concurrency x \<and> taskQueue x = rest \<and>
     (if v = [] then AwaitSleep 1000 else AwaitGate v (beforeRequestHandler x v)) \<in> set (pending x)"


section \<open>Basic facts\<close>

text \<open>Which fields each segment leaves alone, and what it appends.\<close>

lemma emit_fields [simp]:
  "taskQueue (emit e s) = taskQueue s" "active (emit e s) = active s"
  "paused (emit e s) = paused s" "concurrency (emit e s) = concurrency s"
  "activeRequests (emit e s) = activeRequests s" "retries (emit e s) = retries s"
  "delay (emit e s) = delay s" "proxy (emit e s) = proxy s" "cookies (emit e s) = cookies s"
  "headers (emit e s) = headers s" "beforeRequestHandler (emit e s) = beforeRequestHandler s"
  "itemProcessor (emit e s) = itemProcessor s" "pending (emit e s) = pending s"
  "trace (emit e s) = trace s @ [e]" "randoms (emit e s) = randoms s" "drawn (emit e s) = drawn s"
  by (simp_all add: emit_def)

lemma suspend_fields [simp]:
  "taskQueue (suspend k s) = taskQueue s" "active (suspend k s) = active s"
  "paused (suspend k s) = paused s" "concurrency (suspend k s) = concurrency s"
  "activeRequests (suspend k s) = activeRequests s" "retries (suspend k s) = retries s"
  "delay (suspend k s) = delay s" "proxy (suspend k s) = proxy s" "cookies (suspend k s) = cookies s"
  "headers (suspend k s) = headers s" "beforeRequestHandler (suspend k s) = beforeRequestHandler s"
  "itemProcessor (suspend k s) = itemProcessor s" "pending (suspend k s) = pending s @ [k]"
  "trace (suspend k s) = trace s" "randoms (suspend k s) = randoms s" "drawn (suspend k s) = drawn s"
  by (simp_all add: suspend_def)

lemma fetchUrl_fields [simp]:
  "taskQueue (fetchUrl u r fin s) = taskQueue s" "active (fetchUrl u r fin s) = active s"
  "paused (fetchUrl u r fin s) = paused s" "concurrency (fetchUrl u r fin s) = concurrency s"
  "activeRequests (fetchUrl u r fin s) = activeRequests s" "retries (fetchUrl u r fin s) = retries s"
  "delay (fetchUrl u r fin s) = delay s" "proxy (fetchUrl u r fin s) = proxy s"
  "cookies (fetchUrl u r fin s) = cookies s" "headers (fetchUrl u r fin s) = headers s"
  "beforeRequestHandler (fetchUrl u r fin s) = beforeRequestHandler s"
  "itemProcessor (fetchUrl u r fin s) = itemProcessor s"
  "pending (fetchUrl u r fin s) = pending s @ [AwaitFetch u r fin]"
  "trace (fetchUrl u r fin s) = trace s @ [Fetch u (build_options s (randoms s (drawn s)))]"
  "randoms (fetchUrl u r fin s) = randoms s"
  by (simp_all add: fetchUrl_def Let_def build_options_def split: proxy_setting.splits)

lemma fetchPage_fields [simp]:
  "taskQueue (fetchPage u r fin s) = taskQueue s" "active (fetchPage u r fin s) = active s"
  "paused (fetchPage u r fin s) = paused s" "concurrency (fetchPage u r fin s) = concurrency s"
  "activeRequests (fetchPage u r fin s) = activeRequests s" "retries (fetchPage u r fin s) = retries s"
  "delay (fetchPage u r fin s) = delay s" "proxy (fetchPage u r fin s) = proxy s"
  "cookies (fetchPage u r fin s) = cookies s" "headers (fetchPage u r fin s) = headers s"
  "beforeRequestHandler (fetchPage u r fin s) = beforeRequestHandler s"
  "itemProcessor (fetchPage u r fin s) = itemProcessor s"
  "randoms (fetchPage u r fin s) = randoms s"
  by (simp_all add: fetchPage_def)

lemma on_catch_fields [simp]:
  "taskQueue (on_catch u r e s) = taskQueue s" "active (on_catch u r e s) = active s"
  "paused (on_catch u r e s) = paused s" "concurrency (on_catch u r e s) = concurrency s"
  "activeRequests (on_catch u r e s) = activeRequests s" "retries (on_catch u r e s) = retries s"
  "delay (on_catch u r e s) = delay s" "proxy (on_catch u r e s) = proxy s"
  "cookies (on_catch u r e s) = cookies s" "headers (on_catch u r e s) = headers s"
  "beforeRequestHandler (on_catch u r e s) = beforeRequestHandler s"
  "itemProcessor (on_catch u r e s) = itemProcessor s"
  "randoms (on_catch u r e s) = randoms s" "drawn (on_catch u r e s) = drawn s"
  by (simp_all add: on_catch_def split: thrown.splits)

lemma settle_fields [simp]:
  "taskQueue (settle fin s) = taskQueue s" "active (settle fin s) = active s"
  "paused (settle fin s) = paused s" "concurrency (settle fin s) = concurrency s"
  "activeRequests (settle fin s) = activeRequests s" "retries (settle fin s) = retries s"
  "delay (settle fin s) = delay s" "proxy (settle fin s) = proxy s"
  "cookies (settle fin s) = cookies s" "headers (settle fin s) = headers s"
  "beforeRequestHandler (settle fin s) = beforeRequestHandler s"
  "itemProcessor (settle fin s) = itemProcessor s" "trace (settle fin s) = trace s"
  "randoms (settle fin s) = randoms s" "drawn (settle fin s) = drawn s"
  "pending (settle fin s) = pending s @ (if fin then [FinallyCb] else [])"
  by (simp_all add: settle_def)

lemma fetchPage_resume_fields [simp]:
  "taskQueue (fetchPage_resume u r fin res s) = taskQueue s"
  "active (fetchPage_resume u r fin res s) = active s"
  "paused (fetchPage_resume u r fin res s) = paused s"
  "concurrency (fetchPage_resume u r fin res s) = concurrency s"
  "activeRequests (fetchPage_resume u r fin res s) = activeRequests s"
  "retries (fetchPage_resume u r fin res s) = retries s"
  "delay (fetchPage_resume u r fin res s) = delay s"
  "proxy (fetchPage_resume u r fin res s) = proxy s"
  "cookies (fetchPage_resume u r fin res s) = cookies s"
  "headers (fetchPage_resume u r fin res s) = headers s"
  "beforeRequestHandler (fetchPage_resume u r fin res s) = beforeRequestHandler s"
  "itemProcessor (fetchPage_resume u r fin res s) = itemProcessor s"
  "randoms (fetchPage_resume u r fin res s) = randoms s"
  "drawn (fetchPage_resume u r fin res s) = drawn s"
  by (simp_all add: fetchPage_resume_def Let_def split: sum.splits option.splits)

lemma checkQueue_fields [simp]:
  "active (checkQueue s) = active s" "paused (checkQueue s) = paused s"
  "concurrency (checkQueue s) = concurrency s" "activeRequests (checkQueue s) = activeRequests s"
  "retries (checkQueue s) = retries s" "delay (checkQueue s) = delay s"
  "proxy (checkQueue s) = proxy s" "cookies (checkQueue s) = cookies s"
  "headers (checkQueue s) = headers s"
  "beforeRequestHandler (checkQueue s) = beforeRequestHandler s"
  "itemProcessor (checkQueue s) = itemProcessor s"
  "randoms (checkQueue s) = randoms s" "drawn (checkQueue s) = drawn s"
  by (simp_all add: checkQueue_def shift_def Let_def split: list.splits)

lemma checkQueue_idle:
  "\<not> (active s \<and> \<not> paused s \<and> activeRequests s < concurrency s \<and> taskQueue s \<noteq> []) \<Longrightarrow> checkQueue s = s"
  by (auto simp: checkQueue_def)

lemma checkQueue_pop:
  "active s \<Longrightarrow> \<not> paused s \<Longrightarrow> activeRequests s < concurrency s \<Longrightarrow> taskQueue s = u # q \<Longrightarrow> u \<noteq> [] \<Longrightarrow>
   checkQueue s = suspend (AwaitGate u (beforeRequestHandler s u)) (emit (GateCalled u) (s\<lparr>taskQueue := q\<rparr>))"
  by (simp add: checkQueue_def shift_def)

lemma checkQueue_pop_empty_string:
  "active s \<Longrightarrow> \<not> paused s \<Longrightarrow> activeRequests s < concurrency s \<Longrightarrow> taskQueue s = [] # q \<Longrightarrow>
   checkQueue s = suspend (AwaitSleep 1000) (emit EndCalled (s\<lparr>taskQueue := q\<rparr>))"
  by (simp add: checkQueue_def shift_def)

lemmas run_defs = start_def stop_def pause_def resume_def addTask_def checkQueue_def shift_def
  suspend_def emit_def take_def fetchPage_def fetchUrl_def build_options_def settle_def
  fetchPage_resume_def fetchUrl_result_def on_catch_def Crawler_def Let_def
  setProxy_def setRetries_def setDelay_def setCookies_def setHeaders_def onItemProcess_def
  beforeRequest_def

text \<open>The drain loop pops at most one identifier, and starts no worker by itself.\<close>

lemma checkQueue_worker_free:
  "filter worker_event (trace (checkQueue s)) = filter worker_event (trace s)"
  "filter worker_cont (pending (checkQueue s)) = filter worker_cont (pending s)"
  "taskQueue (checkQueue s) = taskQueue s \<or> taskQueue (checkQueue s) = tl (taskQueue s)"
  by (auto simp: checkQueue_def shift_def Let_def split: list.splits)

lemma checkQueue_keeps_pending:
  "set (pending s) \<subseteq> set (pending (checkQueue s))"
  by (auto simp: checkQueue_def shift_def Let_def split: list.splits)

lemma filter_remove1_other:
  "\<not> P k \<Longrightarrow> filter P (remove1 k xs) = filter P xs"
  by (induction xs) auto

lemma checkQueue_paused [simp]: "paused s \<Longrightarrow> checkQueue s = s"
  by (simp add: checkQueue_def)

text \<open>Facts about \<open>unique\<close>.\<close>

lemma set_unique [simp]: "set (unique xs) = set xs"
  by (induction xs rule: unique.induct) auto

lemma distinct_unique [simp]: "distinct (unique xs)"
  by (induction xs rule: unique.induct) auto

lemma unique_filter: "unique (filter P xs) = filter P (unique xs)"
proof (induction xs rule: unique.induct)
  case 1
  show ?case by simp
next
  case (2 x xs)
  have comm: "filter (\<lambda>y. y \<noteq> x) (filter P xs) = filter P (filter (\<lambda>y. y \<noteq> x) xs)"
    by (simp add: conj_commute)
  have drop: "\<not> P x \<Longrightarrow> filter P (filter (\<lambda>y. y \<noteq> x) xs) = filter P xs"
    by (induction xs) auto
  show ?case
  proof (cases "P x")
    case True
    then show ?thesis using 2 comm by simp
  next
    case False
    have "unique (filter P (x # xs)) = unique (filter P xs)" using False by simp
    also have "\<dots> = unique (filter P (filter (\<lambda>y. y \<noteq> x) xs))" using drop [OF False] by simp
    also have "\<dots> = filter P (unique (filter (\<lambda>y. y \<noteq> x) xs))" using 2 by simp
    finally show ?thesis using False by simp
  qed
qed

lemma unique_idem [simp]: "unique (unique xs) = unique xs"
proof (induction xs rule: unique.induct)
  case 1
  show ?case by simp
next
  case (2 x xs)
  have "filter (\<lambda>y. y \<noteq> x) (unique (filter (\<lambda>y. y \<noteq> x) xs)) = unique (filter (\<lambda>y. y \<noteq> x) xs)"
    by (rule filter_True) simp
  with 2 show ?case by simp
qed

lemma unique_append: "unique (xs @ ys) = unique xs @ filter (\<lambda>y. y \<notin> set xs) (unique ys)"
proof (induction xs arbitrary: ys rule: unique.induct)
  case 1
  show ?case by simp
next
  case (2 x xs)
  have "unique ((x # xs) @ ys) = x # unique (filter (\<lambda>y. y \<noteq> x) xs @ filter (\<lambda>y. y \<noteq> x) ys)"
    by simp
  also have "\<dots> = x # unique (filter (\<lambda>y. y \<noteq> x) xs) @
      filter (\<lambda>y. y \<notin> set (filter (\<lambda>y. y \<noteq> x) xs)) (unique (filter (\<lambda>y. y \<noteq> x) ys))"
    using 2 by simp
  also have "filter (\<lambda>y. y \<notin> set (filter (\<lambda>y. y \<noteq> x) xs)) (unique (filter (\<lambda>y. y \<noteq> x) ys))
      = filter (\<lambda>y. y \<notin> set (x # xs)) (unique ys)"
    by (auto simp: unique_filter intro: filter_cong)
  finally show ?case by simp
qed

lemma unique_snoc:
  "unique (xs @ [u]) = (if u \<in> set xs then unique xs else unique xs @ [u])"
  by (simp add: unique_append)

lemma unique_unique_append: "unique (unique xs @ ys) = unique (xs @ ys)"
  by (simp add: unique_append)

lemma filter_neq_id: "a \<notin> set xs \<Longrightarrow> filter (\<lambda>y. y \<noteq> a) xs = xs"
  by (induction xs) auto

lemma unique_distinct: "distinct xs \<Longrightarrow> unique xs = xs"
  by (induction xs) (simp_all add: filter_neq_id)

lemma length_unique: "length (unique xs) = card (set xs)"
  using distinct_card [of "unique xs"] by simp

text \<open>The projections of a trace.\<close>

lemma gate_calls_append [simp]: "gate_calls (xs @ ys) = gate_calls xs @ gate_calls ys"
  by (induction xs rule: gate_calls.induct) auto

lemma gate_calls_segments [simp]:
  "gate_calls (trace (fetchUrl u r fin s)) = gate_calls (trace s)"
  "gate_calls (trace (fetchPage u r fin s)) = gate_calls (trace s)"
  "gate_calls (trace (on_catch u r e s)) = gate_calls (trace s)"
  "gate_calls (trace (fetchPage_resume u r fin res s)) = gate_calls (trace s)"
  by (simp_all add: fetchPage_def on_catch_def fetchPage_resume_def Let_def
      split: thrown.splits sum.splits option.splits)




text \<open>
  The end handler is called only when the drain loop pops the empty string: in a run that
  never appends the empty string, from a queue without it, the end handler is not called.
\<close>

lemma end_calls_segments [simp]:
  "filter end_call (trace (fetchUrl u r fin s)) = filter end_call (trace s)"
  "filter end_call (trace (fetchPage u r fin s)) = filter end_call (trace s)"
  "filter end_call (trace (on_catch u r e s)) = filter end_call (trace s)"
  "filter end_call (trace (fetchPage_resume u r fin res s)) = filter end_call (trace s)"
  by (simp_all add: fetchPage_def on_catch_def fetchPage_resume_def Let_def
      split: thrown.splits sum.splits option.splits)

lemma checkQueue_no_end:
  assumes "[] \<notin> set (taskQueue s)"
  shows "[] \<notin> set (taskQueue (checkQueue s)) \<and>
         filter end_call (trace (checkQueue s)) = filter end_call (trace s)"
  using assms by (auto simp: checkQueue_def shift_def Let_def split: list.splits)

lemma no_end_wake:
  assumes "[] \<notin> set (taskQueue s)"
  shows "[] \<notin> set (taskQueue (wake k s)) \<and>
         filter end_call (trace (wake k s)) = filter end_call (trace s)"
proof (cases k)
  case (AwaitGate v b)
  let ?t = "if b then fetchPage v (retries s) True (s\<lparr>activeRequests := activeRequests s + 1\<rparr>)
            else emit (Log (''Before request handler blocked URL: '' @ v)) s"
  have q: "[] \<notin> set (taskQueue ?t)" using assms by simp
  have "filter end_call (trace ?t) = filter end_call (trace s)" by simp
  with checkQueue_no_end [OF q] AwaitGate show ?thesis by simp
next
  case (AwaitSleep ms)
  with checkQueue_no_end [OF assms] show ?thesis by simp
next
  case FinallyCb
  let ?t = "s\<lparr>activeRequests := activeRequests s - 1\<rparr>"
  have q: "[] \<notin> set (taskQueue ?t)" using assms by simp
  with checkQueue_no_end [OF q] FinallyCb assms show ?thesis by (simp add: Let_def)
qed (use assms in simp_all)

lemma no_end_step:
  assumes "[] \<notin> set (taskQueue s)" "a \<noteq> AddTask []" "step a s = Some s'"
  shows "[] \<notin> set (taskQueue s') \<and> filter end_call (trace s') = filter end_call (trace s)"
proof (cases a)
  case (AddTask v)
  let ?t = "s\<lparr>taskQueue := unique (taskQueue s @ [v])\<rparr>"
  have q: "[] \<notin> set (taskQueue ?t)" using assms(1,2) AddTask by auto
  have s': "s' = (if active s then checkQueue ?t else ?t)"
    using assms(3) AddTask by (auto simp: addTask_def Let_def)
  show ?thesis
  proof (cases "active s")
    case True
    with checkQueue_no_end [OF q] s' show ?thesis by simp
  next
    case False
    with q s' show ?thesis by simp
  qed
next
  case Start
  let ?t = "s\<lparr>active := True, paused := False\<rparr>"
  have q: "[] \<notin> set (taskQueue ?t)" using assms(1) by simp
  have s': "s' = start s" using assms(3) Start by simp
  show ?thesis
  proof (cases "active s")
    case True
    with assms(1) s' show ?thesis by (simp add: start_def)
  next
    case False
    with checkQueue_no_end [OF q] s' show ?thesis by (simp add: start_def)
  qed
next
  case Resume
  let ?t = "s\<lparr>paused := False\<rparr>"
  have q: "[] \<notin> set (taskQueue ?t)" using assms(1) by simp
  have s': "s' = resume s" using assms(3) Resume by simp
  show ?thesis
  proof (cases "active s \<and> paused s")
    case True
    with checkQueue_no_end [OF q] s' show ?thesis by (simp add: resume_def)
  next
    case False
    with assms(1) s' show ?thesis by (simp add: resume_def)
  qed
next
  case (Wake k)
  with assms(3) obtain s0 where s0: "take k s = Some s0" and s': "s' = wake k s0"
    by (cases k) (auto split: cont.splits)
  from s0 have f: "taskQueue s0 = taskQueue s" "trace s0 = trace s"
    by (auto simp: take_def split: if_splits)
  with no_end_wake [of s0 k] assms(1) s' show ?thesis by simp
next
  case (Respond u r fin res)
  with assms(3) obtain s0 where s0: "take (AwaitFetch u r fin) s = Some s0"
    and s': "s' = fetchPage_resume u r fin res s0"
    by auto
  from s0 have f: "taskQueue s0 = taskQueue s" "trace s0 = trace s"
    by (auto simp: take_def split: if_splits)
  with assms(1) s' show ?thesis by simp
qed (use assms in \<open>auto simp: stop_def pause_def setProxy_def setRetries_def
      setDelay_def setCookies_def setHeaders_def onItemProcess_def beforeRequest_def\<close>)

lemma end_handler_needs_empty_identifier:
  assumes "[] \<notin> set (taskQueue s)" "AddTask [] \<notin> set as" "exec as s = Some s'"
  shows "[] \<notin> set (taskQueue s') \<and> filter end_call (trace s') = filter end_call (trace s)"
  using assms
proof (induction as arbitrary: s)
  case Nil
  then show ?case by simp
next
  case (Cons a as)
  from Cons.prems(3) obtain s1 where s1: "step a s = Some s1" and rest: "exec as s1 = Some s'"
    by (auto split: option.splits)
  from Cons.prems(2) have na: "a \<noteq> AddTask []" "AddTask [] \<notin> set as" by auto
  note st = no_end_step [OF Cons.prems(1) na(1) s1]
  from Cons.IH [OF st [THEN conjunct1] na(2) rest] st show ?case by simp
qed

text \<open>
  The rounding to binary64: it is within half a unit in the last place, and it never
  crosses an integer below \<open>2\<close> to the power 53.
\<close>

lemma round_half_even_cases:
  "round_half_even y = \<lfloor>y\<rfloor> \<and> y - of_int \<lfloor>y\<rfloor> \<le> 1 / 2 \<or>
   round_half_even y = \<lfloor>y\<rfloor> + 1 \<and> 1 / 2 \<le> y - of_int \<lfloor>y\<rfloor>"
  unfolding round_half_even_def Let_def by (cases "y - of_int \<lfloor>y\<rfloor> < 1 / 2") auto

lemma round_half_even_ge: "of_int m \<le> y \<Longrightarrow> m \<le> round_half_even y"
proof -
  assume "of_int m \<le> y"
  then have "m \<le> \<lfloor>y\<rfloor>" by (simp add: le_floor_iff)
  then show ?thesis using round_half_even_cases [of y] by auto
qed

lemma round_half_even_of_int [simp]: "round_half_even (of_int m) = m"
  by (simp add: round_half_even_def)

lemma round_half_even_le: "y \<le> of_int m \<Longrightarrow> round_half_even y \<le> m"
proof -
  assume h: "y \<le> of_int m"
  then have f: "\<lfloor>y\<rfloor> \<le> m" using floor_mono [of y "of_int m"] by simp
  show ?thesis
  proof (cases "\<lfloor>y\<rfloor> = m")
    case True
    have "of_int \<lfloor>y\<rfloor> \<le> y" by simp
    with True h have "y = of_int m" by simp
    then show ?thesis by simp
  next
    case False
    with f have "\<lfloor>y\<rfloor> + 1 \<le> m" by simp
    then show ?thesis using round_half_even_cases [of y] by auto
  qed
qed

lemma round_half_even_error: "\<bar>of_int (round_half_even y) - y\<bar> \<le> 1 / 2"
proof -
  have b: "of_int \<lfloor>y\<rfloor> \<le> y" "y < of_int \<lfloor>y\<rfloor> + 1" by linarith+
  from round_half_even_cases [of y] show ?thesis
  proof
    assume "round_half_even y = \<lfloor>y\<rfloor> \<and> y - of_int \<lfloor>y\<rfloor> \<le> 1 / 2"
    then show ?thesis using b by simp
  next
    assume "round_half_even y = \<lfloor>y\<rfloor> + 1 \<and> 1 / 2 \<le> y - of_int \<lfloor>y\<rfloor>"
    then show ?thesis using b by simp
  qed
qed

lemma binary64_ulp_pos: "0 < binary64_ulp x"
  by (simp add: binary64_ulp_def)

lemma binary64_error:
  assumes "0 < x"
  shows "\<bar>binary64 x - x\<bar> \<le> binary64_ulp x / 2"
proof -
  let ?u = "binary64_ulp x"
  have u: "0 < ?u" by (rule binary64_ulp_pos)
  have "\<bar>of_int (round_half_even (x / ?u)) - x / ?u\<bar> \<le> 1 / 2"
    by (rule round_half_even_error)
  then have "\<bar>of_int (round_half_even (x / ?u)) - x / ?u\<bar> * ?u \<le> 1 / 2 * ?u"
    using u by (intro mult_right_mono) simp_all
  moreover have "\<bar>of_int (round_half_even (x / ?u)) - x / ?u\<bar> * ?u =
      \<bar>of_int (round_half_even (x / ?u)) * ?u - x\<bar>"
    using u by (simp add: abs_mult_pos [symmetric] field_simps del: abs_mult_pos)
  ultimately show ?thesis using assms by (simp add: binary64_def)
qed

lemma binary64_exponent_cases:
  assumes "0 < x"
  shows "2 powr of_int (binary64_exponent x) \<le> x \<or>
         binary64_exponent x = - 1022 \<and> x < 2 powr (- 1022)"
proof -
  let ?k = "\<lfloor>log 2 x\<rfloor>"
  have k: "2 powr of_int ?k \<le> x" "x < 2 powr (of_int ?k + 1)"
    using floor_log_eq_powr_iff [OF assms, of 2 ?k] by simp_all
  show ?thesis
  proof (cases "- 1022 \<le> ?k")
    case True
    then have "binary64_exponent x = ?k" by (simp add: binary64_exponent_def)
    then have "2 powr of_int (binary64_exponent x) \<le> x" using k(1) by simp
    then show ?thesis ..
  next
    case False
    then have e: "binary64_exponent x = - 1022" by (simp add: binary64_exponent_def)
    from False have "of_int ?k + 1 \<le> (- 1022 :: real)" by linarith
    then have "(2::real) powr (of_int ?k + 1) \<le> 2 powr (- 1022)"
      by (intro powr_mono) simp_all
    with k(2) have "x < 2 powr (- 1022)" by (rule less_le_trans)
    with e show ?thesis by blast
  qed
qed

lemma binary64_half_ulp:
  assumes "0 < x"
  shows "binary64_ulp x / 2 \<le> x * 2 powr (- 53) \<or>
         binary64_ulp x / 2 = 2 powr (- 1075) \<and> x < 2 powr (- 1022)"
proof -
  have half: "binary64_ulp x / 2 = 2 powr (of_int (binary64_exponent x) - 53)"
    by (simp add: binary64_ulp_def powr_diff)
  from binary64_exponent_cases [OF assms] show ?thesis
  proof
    assume a: "2 powr of_int (binary64_exponent x) \<le> x"
    have "binary64_ulp x / 2 = 2 powr of_int (binary64_exponent x) * 2 powr (- 53)"
      unfolding half by (simp add: powr_diff powr_minus field_simps)
    also have "\<dots> \<le> x * 2 powr (- 53)"
      using a by (intro mult_right_mono) simp_all
    finally show ?thesis by blast
  next
    assume a: "binary64_exponent x = - 1022 \<and> x < 2 powr (- 1022)"
    then have "binary64_ulp x / 2 = 2 powr (- 1075)" unfolding half by simp
    with a show ?thesis by blast
  qed
qed

lemma binary64_scale:
  assumes "0 < x" "x < 2 ^ 53"
  shows "\<exists>k::nat. binary64_ulp x = 1 / 2 ^ k"
proof -
  have e: "binary64_exponent x \<le> 52"
  proof -
    from binary64_exponent_cases [OF assms(1)] show ?thesis
    proof
      assume a: "2 powr of_int (binary64_exponent x) \<le> x"
      have "x < (2::real) powr 53" using assms(2) by simp
      with a have lt: "2 powr of_int (binary64_exponent x) < (2::real) powr 53"
        by (rule le_less_trans)
      have "real_of_int (binary64_exponent x) < 53"
        by (rule powr_less_cancel [OF lt]) simp
      then show ?thesis by linarith
    next
      assume "binary64_exponent x = - 1022 \<and> x < 2 powr (- 1022)"
      then show ?thesis by simp
    qed
  qed
  define k where "k = nat (52 - binary64_exponent x)"
  have "of_int (binary64_exponent x) - 52 = - real k"
    using e by (simp add: k_def)
  then have "binary64_ulp x = 2 powr (- real k)" by (simp add: binary64_ulp_def)
  also have "\<dots> = 1 / 2 ^ k" by (simp add: powr_minus powr_realpow field_simps)
  finally show ?thesis by blast
qed

lemma binary64_ge_int:
  assumes "0 < x" "x < 2 ^ 53" "of_int j \<le> x"
  shows "of_int j \<le> binary64 x"
proof -
  from binary64_scale [OF assms(1,2)] obtain k :: nat where u: "binary64_ulp x = 1 / 2 ^ k"
    by blast
  have "of_int (j * 2 ^ k) \<le> x / binary64_ulp x"
    using assms(3) by (simp add: u)
  then have "j * 2 ^ k \<le> round_half_even (x / binary64_ulp x)"
    by (rule round_half_even_ge)
  then have "real_of_int (j * 2 ^ k) \<le> of_int (round_half_even (x / binary64_ulp x))"
    by (simp only: of_int_le_iff)
  then have "real_of_int (j * 2 ^ k) * (1 / 2 ^ k) \<le>
      of_int (round_half_even (x / binary64_ulp x)) * (1 / 2 ^ k)"
    by (intro mult_right_mono) simp_all
  then show ?thesis using assms(1) by (simp add: binary64_def u)
qed

lemma binary64_le_int:
  assumes "0 < x" "x < 2 ^ 53" "x \<le> of_int j"
  shows "binary64 x \<le> of_int j"
proof -
  from binary64_scale [OF assms(1,2)] obtain k :: nat where u: "binary64_ulp x = 1 / 2 ^ k"
    by blast
  have "x / binary64_ulp x \<le> of_int (j * 2 ^ k)"
    using assms(3) by (simp add: u)
  then have "round_half_even (x / binary64_ulp x) \<le> j * 2 ^ k"
    by (rule round_half_even_le)
  then have "of_int (round_half_even (x / binary64_ulp x)) \<le> real_of_int (j * 2 ^ k)"
    by (simp only: of_int_le_iff)
  then have "of_int (round_half_even (x / binary64_ulp x)) * (1 / 2 ^ k) \<le>
      real_of_int (j * 2 ^ k) * (1 / 2 ^ k)"
    by (intro mult_right_mono) simp_all
  then show ?thesis using assms(1) by (simp add: binary64_def u)
qed

lemma binary64_upper:
  assumes "0 < x"
  shows "binary64 x \<le> x + x * 2 powr (- 53) \<or> binary64 x \<le> x + 2 powr (- 1075) \<and> x < 2 powr (- 1022)"
proof -
  have "binary64 x - x \<le> \<bar>binary64 x - x\<bar>" by simp
  also have "\<dots> \<le> binary64_ulp x / 2" by (rule binary64_error [OF assms])
  finally have b: "binary64 x \<le> x + binary64_ulp x / 2" by simp
  from binary64_half_ulp [OF assms] show ?thesis
  proof
    assume "binary64_ulp x / 2 \<le> x * 2 powr (- 53)"
    with b have "binary64 x \<le> x + x * 2 powr (- 53)" by linarith
    then show ?thesis ..
  next
    assume a: "binary64_ulp x / 2 = 2 powr (- 1075) \<and> x < 2 powr (- 1022)"
    with b have "binary64 x \<le> x + 2 powr (- 1075)" by simp
    with a show ?thesis by blast
  qed
qed

text \<open>
  The index that \<open>Math.floor(Math.random() * length)\<close> computes: inside the array, and the
  floor of the exact product unless the product rounds up to the next integer.
\<close>

lemma tiny_sum: "(2::real) powr (- 1022) + 2 powr (- 1075) \<le> 1"
proof -
  have "(2::real) powr (- 1022) \<le> 2 powr (- 1)" by (intro powr_mono) simp_all
  moreover have "(2::real) powr (- 1075) \<le> 2 powr (- 1)" by (intro powr_mono) simp_all
  moreover have "(2::real) powr (- 1) = 1 / 2" by (simp add: powr_minus)
  ultimately show ?thesis by linarith
qed

lemma random_index_bounds:
  assumes r: "0 \<le> r" "r \<le> 1 - 1 / 2 ^ 53" and n: "0 < n" "n < 2 ^ 32"
  shows "0 \<le> random_index r n \<and> random_index r n < int n \<and>
         \<lfloor>r * real n\<rfloor> \<le> random_index r n \<and> random_index r n \<le> \<lfloor>r * real n\<rfloor> + 1 \<and>
         (r * real n * (1 + 1 / 2 ^ 53) < of_int \<lfloor>r * real n\<rfloor> + 1 \<longrightarrow>
            random_index r n = \<lfloor>r * real n\<rfloor>)"
proof -
  let ?p = "r * real n"
  have p0: "0 \<le> ?p" using r(1) by simp
  have rn: "real n < 2 ^ 32" using n(2) by (metis of_nat_less_iff of_nat_numeral of_nat_power)
  have "?p \<le> 1 * real n" using r(2) by (intro mult_right_mono) simp_all
  then have pn: "?p \<le> real n" by simp
  have p53: "?p < 2 ^ 53" using pn rn by simp
  have fl0: "0 \<le> \<lfloor>?p\<rfloor>" using p0 by simp
  show ?thesis
  proof (cases "?p = 0")
    case True
    then show ?thesis using n(1) by (simp add: random_index_def binary64_def)
  next
    case False
    have pos: "0 < ?p"
      by (rule order.not_eq_order_implies_strict [OF False [symmetric] p0])
    have lo: "of_int \<lfloor>?p\<rfloor> \<le> binary64 ?p"
      by (rule binary64_ge_int [OF pos p53]) simp
    have hi: "binary64 ?p \<le> of_int (\<lfloor>?p\<rfloor> + 1)"
      by (rule binary64_le_int [OF pos p53]) linarith
    have i_lo: "\<lfloor>?p\<rfloor> \<le> random_index r n"
      using lo by (simp add: random_index_def le_floor_iff)
    have i_hi: "random_index r n \<le> \<lfloor>?p\<rfloor> + 1"
    proof -
      have "of_int (random_index r n) \<le> binary64 ?p" by (simp add: random_index_def)
      with hi have "real_of_int (random_index r n) \<le> of_int (\<lfloor>?p\<rfloor> + 1)" by linarith
      then show ?thesis by (simp only: of_int_le_iff)
    qed
    have u: "(2::real) powr (- 53) = 1 / 2 ^ 53" by (simp add: powr_neg_numeral)
    have below: "binary64 ?p < real n"
    proof -
      from binary64_upper [OF pos] show ?thesis
      proof
        assume "binary64 ?p \<le> ?p + ?p * 2 powr (- 53)"
        then have a: "binary64 ?p \<le> ?p * (1 + 1 / 2 ^ 53)" by (simp add: u algebra_simps)
        have a1: "?p \<le> (1 - 1 / 2 ^ 53) * real n"
          by (rule mult_right_mono [OF r(2)]) simp
        have "?p * (1 + 1 / 2 ^ 53) \<le> (1 - 1 / 2 ^ 53) * real n * (1 + 1 / 2 ^ 53)"
          by (rule mult_right_mono [OF a1]) simp
        also have "\<dots> = real n * (1 - 1 / 2 ^ 106)" by (simp add: algebra_simps)
        also have "\<dots> < real n" using n(1) by simp
        finally show ?thesis using a by linarith
      next
        assume "binary64 ?p \<le> ?p + 2 powr (- 1075) \<and> ?p < 2 powr (- 1022)"
        then have "binary64 ?p < 2 powr (- 1022) + 2 powr (- 1075)" by linarith
        with tiny_sum have "binary64 ?p < 1" by linarith
        moreover have "1 \<le> real n" using n(1) by simp
        ultimately show ?thesis by linarith
      qed
    qed
    have i_n: "random_index r n < int n"
    proof -
      have "binary64 ?p < of_int (int n)" using below by simp
      then show ?thesis by (simp only: random_index_def floor_less_iff)
    qed
    have exact: "random_index r n = \<lfloor>?p\<rfloor>"
      if h: "?p * (1 + 1 / 2 ^ 53) < of_int \<lfloor>?p\<rfloor> + 1"
    proof -
      have "binary64 ?p < of_int (\<lfloor>?p\<rfloor> + 1)"
      proof -
        from binary64_upper [OF pos] show ?thesis
        proof
          assume "binary64 ?p \<le> ?p + ?p * 2 powr (- 53)"
          then have "binary64 ?p \<le> ?p * (1 + 1 / 2 ^ 53)" by (simp add: u algebra_simps)
          with h show ?thesis by simp
        next
          assume "binary64 ?p \<le> ?p + 2 powr (- 1075) \<and> ?p < 2 powr (- 1022)"
          then have "binary64 ?p < 2 powr (- 1022) + 2 powr (- 1075)" by linarith
          with tiny_sum have "binary64 ?p < 1" by linarith
          moreover have "(1::real) \<le> of_int (\<lfloor>?p\<rfloor> + 1)" using fl0 by simp
          ultimately show ?thesis by linarith
        qed
      qed
      then have "random_index r n < \<lfloor>?p\<rfloor> + 1"
        by (simp only: random_index_def floor_less_iff)
      with i_lo show ?thesis by simp
    qed
    have i0: "0 \<le> random_index r n" using fl0 i_lo by (rule order_trans)
    show ?thesis by (intro conjI impI i0 i_n i_lo i_hi exact)
  qed
qed

lemma random_index_rounds_up:
  "random_index (6004799503160661 / 2 ^ 53) 3 = 2"
proof -
  let ?x = "6004799503160661 / 2 ^ 53 * real 3"
  have x: "?x = 18014398509481983 / 2 ^ 53" by simp
  have pos: "0 < ?x" by simp
  have "\<lfloor>log 2 ?x\<rfloor> = 0"
    by (subst floor_log_eq_powr_iff) simp_all
  then have e: "binary64_exponent ?x = 0" by (simp add: binary64_exponent_def)
  have ulp: "binary64_ulp ?x = 1 / 2 ^ 52"
    unfolding binary64_ulp_def e by (simp add: powr_neg_numeral)
  have q: "?x / binary64_ulp ?x = 18014398509481983 / 2" unfolding ulp by simp
  have fl: "\<lfloor>18014398509481983 / 2 :: real\<rfloor> = 9007199254740991" by simp
  have "round_half_even (18014398509481983 / 2) = 9007199254740992"
    by (simp add: round_half_even_def fl Let_def)
  then have "binary64 ?x = 2"
    using pos by (simp only: binary64_def q ulp) simp
  then show ?thesis by (simp add: random_index_def)
qed

lemma pick_proxy_falsy:
  "pick_proxy r [] = None"
  "xs ! nat (random_index r (length xs)) = [] \<Longrightarrow> pick_proxy r xs = None"
  by (simp_all add: pick_proxy_def Let_def)

text \<open>The worker after the answer of the network.\<close>

lemma fetchPage_resume_failure:
  "fetchUrl_result u res = Inl e \<Longrightarrow> fetchPage_resume u r fin res s = settle fin (on_catch u r e s)"
  by (simp add: fetchPage_resume_def)

lemma on_catch_effects:
  "trace (on_catch u r e s) = trace s @
     (if r > 0 then [LogRetrying u r, TimerSet 1000 u (r - 1)]
      else case e of ErrorObj m \<Rightarrow> [ErrorHandled e u] | OtherValue v \<Rightarrow> [LogUnexpected u e])"
  "pending (on_catch u r e s) = pending s @ (if r > 0 then [RetryTimer 1000 u (r - 1)] else [])"
  by (simp_all add: on_catch_def split: thrown.splits)

lemma fetchPage_pending:
  "pending (fetchPage u r fin s) =
     pending s @ [if delay s > 0 then AwaitDelay (delay s) u r fin else AwaitFetch u r fin]"
  by (simp add: fetchPage_def)

lemma fetchPage_resume_trace_indep:
  "trace (fetchPage_resume u r fin res (s\<lparr>pending := p\<rparr>)) = trace (fetchPage_resume u r fin' res s)"
  by (simp add: fetchPage_resume_def on_catch_def Let_def split: sum.splits option.splits thrown.splits)

lemma fetchPage_resume_pending:
  "filter (\<lambda>k. k = FinallyCb) (pending (fetchPage_resume u r False res s)) =
   filter (\<lambda>k. k = FinallyCb) (pending s)"
  by (simp add: fetchPage_resume_def on_catch_def Let_def split: sum.splits option.splits thrown.splits)

text \<open>\<open>addTask\<close> on a crawler that is not active pops nothing.\<close>

lemma addTask_inactive:
  "\<not> active s \<Longrightarrow> addTask u s = s\<lparr>taskQueue := unique (taskQueue s @ [u])\<rparr>"
  by (simp add: addTask_def Let_def)

lemma addTask_queue:
  "taskQueue (addTask v t) = unique (taskQueue t @ [v]) \<or>
   taskQueue (addTask v t) = tl (unique (taskQueue t @ [v]))"
  using checkQueue_worker_free(3) [of "t\<lparr>taskQueue := unique (taskQueue t @ [v])\<rparr>"]
  by (auto simp: addTask_def Let_def)

lemma addTasks_inactive:
  assumes "\<not> active s"
  shows "\<exists>s'. exec (map AddTask us) s = Some s' \<and> \<not> active s' \<and>
           unique (taskQueue s') = unique (taskQueue s @ us) \<and>
           (us \<noteq> [] \<longrightarrow> taskQueue s' = unique (taskQueue s @ us))"
  using assms
proof (induction us arbitrary: s)
  case Nil
  then show ?case by simp
next
  case (Cons u us)
  let ?s1 = "s\<lparr>taskQueue := unique (taskQueue s @ [u])\<rparr>"
  have na: "\<not> active ?s1" using Cons.prems by simp
  from Cons.IH [OF na] obtain s' where s': "exec (map AddTask us) ?s1 = Some s'"
    "\<not> active s'" "unique (taskQueue s') = unique (taskQueue ?s1 @ us)"
    "us \<noteq> [] \<longrightarrow> taskQueue s' = unique (taskQueue ?s1 @ us)"
    by blast
  have ex: "exec (map AddTask (u # us)) s = Some s'"
    using s'(1) Cons.prems by (simp add: addTask_inactive)
  have q1: "unique (taskQueue ?s1 @ us) = unique (taskQueue s @ u # us)"
    by (simp add: unique_unique_append)
  have "taskQueue s' = unique (taskQueue s @ u # us)"
  proof (cases "us = []")
    case True
    then show ?thesis using s'(1) by auto
  next
    case False
    then show ?thesis using s'(4) q1 by simp
  qed
  then show ?case using ex s'(2) by simp
qed

text \<open>The invariant of a worker whose fetches always fail.\<close>

lemma retry_timers_step:
  "0 < r \<Longrightarrow> r \<le> N \<Longrightarrow> retry_timers u N (r - 1) = retry_timers u N r @ [TimerSet 1000 u (r - 1)]"
  by (simp add: retry_timers_def upto_rec1 [of "r - 1" "N - 1"])

lemma retry_timers_full [simp]: "retry_timers u N N = []"
  by (simp add: retry_timers_def)

lemma length_retry_timers: "0 \<le> N \<Longrightarrow> length (retry_timers u N 0) = nat N"
  by (simp add: retry_timers_def)

lemma fails_with_error_result:
  "fails_with_error res \<Longrightarrow> \<exists>m. fetchUrl_result u res = Inl (ErrorObj m)"
  by (cases res rule: fails_with_error.cases) (simp_all add: fetchUrl_result_def)

lemma checkQueue_chain [simp]:
  "filter (chain_cont u) (pending (checkQueue s)) = filter (chain_cont u) (pending s)"
  "filter (chain_event u) (trace (checkQueue s)) = filter (chain_event u) (trace s)"
  by (auto simp: checkQueue_def shift_def Let_def split: list.splits)

lemma chain_inv_cong:
  "filter (chain_cont u) (pending s') = filter (chain_cont u) (pending s) \<Longrightarrow>
   filter (chain_event u) (trace s') = filter (chain_event u) (trace s) \<Longrightarrow>
   chain_inv u N base s' = chain_inv u N base s"
  by (simp add: chain_inv_def split: list.splits)

lemma chain_inv_member:
  assumes "chain_inv u N base s" "k \<in> set (pending s)" "chain_cont u k"
  shows "filter (chain_cont u) (pending s) = [k] \<and> 0 \<le> budget k \<and> budget k \<le> N \<and>
         filter (chain_event u) (trace s) = base @ retry_timers u N (budget k)"
proof -
  have mem: "k \<in> set (filter (chain_cont u) (pending s))" using assms(2,3) by simp
  show ?thesis
  proof (cases "filter (chain_cont u) (pending s)")
    case Nil
    with mem show ?thesis by simp
  next
    case (Cons k' rest)
    with assms(1) have r: "rest = []" by (cases rest) (simp_all add: chain_inv_def)
    with Cons mem have "k' = k" by simp
    with Cons r assms(1) show ?thesis by (simp add: chain_inv_def)
  qed
qed

lemma remove_other:
  "\<not> chain_cont u k \<Longrightarrow> filter (chain_cont u) (remove1 k xs) = filter (chain_cont u) xs"
  by (simp add: filter_remove1 remove1_idem)

lemma chain_events_segments:
  "filter (chain_event u) (trace (fetchUrl v r fin s)) = filter (chain_event u) (trace s)"
  "filter (chain_event u) (trace (fetchPage v r fin s)) = filter (chain_event u) (trace s)"
  by (simp_all add: fetchPage_def)

lemma chain_conts_fetch:
  "filter (chain_cont u) (pending (fetchUrl v r fin s)) =
     filter (chain_cont u) (pending s) @ (if v = u then [AwaitFetch v r fin] else [])"
  "filter (chain_cont u) (pending (fetchPage v r fin s)) =
     filter (chain_cont u) (pending s) @
       (if v = u then [if delay s > 0 then AwaitDelay (delay s) v r fin else AwaitFetch v r fin]
        else [])"
  by (simp_all add: fetchPage_def)

lemma other_resume:
  "v \<noteq> u \<Longrightarrow>
   filter (chain_cont u) (pending (fetchPage_resume v r fin res s)) = filter (chain_cont u) (pending s)"
  "v \<noteq> u \<Longrightarrow>
   filter (chain_event u) (trace (fetchPage_resume v r fin res s)) = filter (chain_event u) (trace s)"
  by (simp_all add: fetchPage_resume_def on_catch_def Let_def
      split: sum.splits option.splits thrown.splits)

lemma failed_resume:
  assumes "fetchUrl_result u res = Inl (ErrorObj m)"
  shows
   "filter (chain_cont u) (pending (fetchPage_resume u r fin res s)) =
      filter (chain_cont u) (pending s) @ (if r > 0 then [RetryTimer 1000 u (r - 1)] else [])"
   "filter (chain_event u) (trace (fetchPage_resume u r fin res s)) =
      filter (chain_event u) (trace s) @
        (if r > 0 then [TimerSet 1000 u (r - 1)] else [ErrorHandled (ErrorObj m) u])"
  using assms by (simp_all add: fetchPage_resume_failure on_catch_effects)

lemma take_Some:
  "take k s = Some s0 \<Longrightarrow> k \<in> set (pending s) \<and> s0 = s\<lparr>pending := remove1 k (pending s)\<rparr>"
  by (auto simp: take_def split: if_splits)

lemma wake_other_chain:
  assumes "\<not> chain_cont u k" "allowed u (Wake k)"
  shows "filter (chain_cont u) (pending (wake k s0)) = filter (chain_cont u) (pending s0) \<and>
          filter (chain_event u) (trace (wake k s0)) = filter (chain_event u) (trace s0)"
proof (cases k)
  case (AwaitGate v b)
  then show ?thesis using assms
    by (simp add: chain_events_segments chain_conts_fetch)
next
  case (AwaitSleep ms)
  then show ?thesis by simp
next
  case (AwaitDelay ms v r fin)
  then show ?thesis using assms by (simp add: chain_events_segments chain_conts_fetch)
next
  case (AwaitFetch v r fin)
  then show ?thesis by simp
next
  case (RetryTimer ms v r)
  then show ?thesis using assms by (simp add: chain_events_segments chain_conts_fetch)
next
  case FinallyCb
  then show ?thesis by (simp add: Let_def)
qed

lemma wake_own_chain:
  assumes "k = AwaitDelay ms u r fin \<or> k = RetryTimer ms u r"
    "filter (chain_cont u) (pending s0) = []"
  shows "\<exists>k'. filter (chain_cont u) (pending (wake k s0)) = [k'] \<and> budget k' = budget k \<and>
          filter (chain_event u) (trace (wake k s0)) = filter (chain_event u) (trace s0)"
proof -
  from assms(1) show ?thesis
  proof
    assume "k = AwaitDelay ms u r fin"
    then show ?thesis using assms(2) by (simp add: chain_events_segments chain_conts_fetch)
  next
    assume "k = RetryTimer ms u r"
    then show ?thesis using assms(2) by (simp add: chain_events_segments chain_conts_fetch)
  qed
qed

lemma chain_inv_wake:
  assumes inv: "chain_inv u N base s" and al: "allowed u (Wake k)"
    and tk: "take k s = Some s0" and nf: "\<forall>v r fin. k \<noteq> AwaitFetch v r fin"
  shows "chain_inv u N base (wake k s0)"
proof -
  from take_Some [OF tk] have mem: "k \<in> set (pending s)"
    and s0: "s0 = s\<lparr>pending := remove1 k (pending s)\<rparr>" by simp_all
  have tr0: "trace s0 = trace s" and d0: "delay s0 = delay s" by (simp_all add: s0)
  show ?thesis
  proof (cases "chain_cont u k")
    case False
    then have p0: "filter (chain_cont u) (pending s0) = filter (chain_cont u) (pending s)"
      by (simp add: s0 remove_other)
    have "chain_inv u N base (wake k s0) = chain_inv u N base s"
      by (rule chain_inv_cong) (simp_all add: wake_other_chain [OF False al] p0 tr0)
    then show ?thesis using inv by simp
  next
    case True
    note m = chain_inv_member [OF inv mem True]
    have p0: "filter (chain_cont u) (pending s0) = []"
      using m by (simp add: s0 filter_remove1)
    from True nf obtain ms r fin where k: "k = AwaitDelay ms u r fin \<or> k = RetryTimer ms u r"
      by (cases k) auto
    from wake_own_chain [OF k p0] obtain k' where k':
      "filter (chain_cont u) (pending (wake k s0)) = [k']" "budget k' = budget k"
      "filter (chain_event u) (trace (wake k s0)) = filter (chain_event u) (trace s0)"
      by blast
    show ?thesis using m k' tr0 by (simp add: chain_inv_def)
  qed
qed

lemma chain_inv_respond:
  assumes inv: "chain_inv u N base s" and al: "allowed u (Respond v r fin res)"
    and tk: "take (AwaitFetch v r fin) s = Some s0"
  shows "chain_inv u N base (fetchPage_resume v r fin res s0)"
proof -
  from take_Some [OF tk] have mem: "AwaitFetch v r fin \<in> set (pending s)"
    and s0: "s0 = s\<lparr>pending := remove1 (AwaitFetch v r fin) (pending s)\<rparr>" by simp_all
  have tr0: "trace s0 = trace s" by (simp add: s0)
  show ?thesis
  proof (cases "v = u")
    case False
    then have p0: "filter (chain_cont u) (pending s0) = filter (chain_cont u) (pending s)"
      by (simp add: s0 remove_other)
    have "chain_inv u N base (fetchPage_resume v r fin res s0) = chain_inv u N base s"
      by (rule chain_inv_cong) (simp_all add: other_resume [OF False] p0 tr0)
    then show ?thesis using inv by simp
  next
    case True
    with al obtain m where res: "fetchUrl_result u res = Inl (ErrorObj m)"
      using fails_with_error_result by auto
    have cc: "chain_cont u (AwaitFetch v r fin)" using True by simp
    note mb = chain_inv_member [OF inv mem cc]
    have p0: "filter (chain_cont u) (pending s0) = []"
      using mb by (simp add: s0 filter_remove1)
    have b: "0 \<le> r" "r \<le> N" using mb by simp_all
    have tr: "filter (chain_event u) (trace s0) = base @ retry_timers u N r"
      using mb tr0 by simp
    show ?thesis
    proof (cases "r > 0")
      case pos: True
      then show ?thesis
        using True p0 tr b retry_timers_step [OF pos b(2), of u]
        by (simp add: chain_inv_def failed_resume [OF res])
    next
      case False
      with b have "r = 0" by simp
      then show ?thesis
        using True p0 tr by (simp add: chain_inv_def failed_resume [OF res] butlast_append)
    qed
  qed
qed

lemma api_views:
  "filter (chain_cont u) (pending (addTask v s)) = filter (chain_cont u) (pending s)"
  "filter (chain_event u) (trace (addTask v s)) = filter (chain_event u) (trace s)"
  "filter (chain_cont u) (pending (start s)) = filter (chain_cont u) (pending s)"
  "filter (chain_event u) (trace (start s)) = filter (chain_event u) (trace s)"
  "filter (chain_cont u) (pending (stop s)) = filter (chain_cont u) (pending s)"
  "filter (chain_event u) (trace (stop s)) = filter (chain_event u) (trace s)"
  "filter (chain_cont u) (pending (pause s)) = filter (chain_cont u) (pending s)"
  "filter (chain_event u) (trace (pause s)) = filter (chain_event u) (trace s)"
  "filter (chain_cont u) (pending (resume s)) = filter (chain_cont u) (pending s)"
  "filter (chain_event u) (trace (resume s)) = filter (chain_event u) (trace s)"
  "filter (chain_cont u) (pending (setCookies c s)) = filter (chain_cont u) (pending s)"
  "filter (chain_event u) (trace (setCookies c s)) = filter (chain_event u) (trace s)"
  by (simp_all add: addTask_def start_def stop_def pause_def resume_def setCookies_def Let_def)

lemma api_inv:
  "chain_inv u N base (addTask v s) = chain_inv u N base s"
  "chain_inv u N base (start s) = chain_inv u N base s"
  "chain_inv u N base (stop s) = chain_inv u N base s"
  "chain_inv u N base (pause s) = chain_inv u N base s"
  "chain_inv u N base (resume s) = chain_inv u N base s"
  "chain_inv u N base (setCookies c s) = chain_inv u N base s"
  "chain_inv u N base (setProxy p s) = chain_inv u N base s"
  "chain_inv u N base (setRetries n s) = chain_inv u N base s"
  "chain_inv u N base (setDelay d s) = chain_inv u N base s"
  "chain_inv u N base (setHeaders h s) = chain_inv u N base s"
  "chain_inv u N base (onItemProcess f s) = chain_inv u N base s"
  "chain_inv u N base (beforeRequest g s) = chain_inv u N base s"
  by (rule chain_inv_cong;
      simp add: api_views setProxy_def setRetries_def setDelay_def setHeaders_def
        onItemProcess_def beforeRequest_def)+

lemma chain_inv_step:
  assumes "chain_inv u N base s" "allowed u a" "step a s = Some s'"
  shows "chain_inv u N base s'"
proof (cases a)
  case (Wake k)
  with assms(3) obtain s0 where "take k s = Some s0" "s' = wake k s0"
    "\<forall>v r fin. k \<noteq> AwaitFetch v r fin"
    by (cases k) auto
  with chain_inv_wake [OF assms(1)] assms(2) Wake show ?thesis by simp
next
  case (Respond v r fin res)
  with assms(3) obtain s0 where "take (AwaitFetch v r fin) s = Some s0"
    "s' = fetchPage_resume v r fin res s0"
    by auto
  with chain_inv_respond [OF assms(1)] assms(2) Respond show ?thesis by simp
qed (use assms in \<open>auto simp: api_inv\<close>)

lemma chain_inv_exec:
  assumes "chain_inv u N base s" "\<forall>a \<in> set as. allowed u a" "exec as s = Some s'"
  shows "chain_inv u N base s'"
  using assms
proof (induction as arbitrary: s)
  case Nil
  then show ?case by simp
next
  case (Cons a as)
  from Cons.prems(3) obtain s1 where s1: "step a s = Some s1" and rest: "exec as s1 = Some s'"
    by (auto split: option.splits)
  have "chain_inv u N base s1"
    using chain_inv_step [OF Cons.prems(1) _ s1] Cons.prems(2) by simp
  then show ?case using Cons.IH [of s1] Cons.prems(2) rest by simp
qed

lemma chain_inv_init:
  assumes "0 \<le> N" "filter (chain_cont u) (pending s) = []"
  shows "chain_inv u N (filter (chain_event u) (trace s)) (fetchPage u N fin s)"
  using assms by (simp add: chain_inv_def chain_conts_fetch chain_events_segments)

lemma exec_append:
  "exec (as @ bs) s = (case exec as s of None \<Rightarrow> None | Some s1 \<Rightarrow> exec bs s1)"
  by (induction as arbitrary: s) (auto split: option.splits)

lemma last_filter_last:
  "xs \<noteq> [] \<Longrightarrow> P (last xs) \<Longrightarrow> last (filter P xs) = last xs"
  by (cases xs rule: rev_cases) simp_all

lemma attempt_exec:
  assumes "filter (chain_cont u) (pending s) = []" "fetchUrl_result u res = Inl (ErrorObj m)"
  shows "\<exists>s1. exec (attempt (delay s) u r fin res) (fetchPage u r fin s) = Some s1 \<and>
      delay s1 = delay s \<and>
      filter (chain_cont u) (pending s1) = (if r > 0 then [RetryTimer 1000 u (r - 1)] else []) \<and>
      (r \<le> 0 \<longrightarrow> trace s1 \<noteq> [] \<and> last (trace s1) = ErrorHandled (ErrorObj m) u)"
proof (cases "delay s > 0")
  case True
  let ?k = "AwaitDelay (delay s) u r fin"
  let ?sB = "(suspend ?k s)\<lparr>pending := remove1 ?k (pending s @ [?k])\<rparr>"
  let ?sC = "fetchUrl u r fin ?sB"
  let ?sD = "?sC\<lparr>pending := remove1 (AwaitFetch u r fin) (pending ?sC)\<rparr>"
  let ?s1 = "fetchPage_resume u r fin res ?sD"
  have pB: "filter (chain_cont u) (pending ?sB) = []"
    using assms(1) by (simp add: filter_remove1)
  have pD: "filter (chain_cont u) (pending ?sD) = []"
    using pB by (simp add: filter_remove1)
  have ex: "exec (attempt (delay s) u r fin res) (fetchPage u r fin s) = Some ?s1"
    using True by (simp add: attempt_def fetchPage_def take_def)
  have p1: "filter (chain_cont u) (pending ?s1) = (if r > 0 then [RetryTimer 1000 u (r - 1)] else [])"
    using pD by (simp only: failed_resume(1) [OF assms(2)]) simp
  have l1: "r \<le> 0 \<Longrightarrow> trace ?s1 \<noteq> [] \<and> last (trace ?s1) = ErrorHandled (ErrorObj m) u"
    by (simp add: fetchPage_resume_failure [OF assms(2)] on_catch_effects)
  have d1: "delay ?s1 = delay s" by simp
  show ?thesis using ex p1 l1 d1 by blast
next
  case False
  let ?sC = "fetchUrl u r fin s"
  let ?sD = "?sC\<lparr>pending := remove1 (AwaitFetch u r fin) (pending ?sC)\<rparr>"
  let ?s1 = "fetchPage_resume u r fin res ?sD"
  have pD: "filter (chain_cont u) (pending ?sD) = []"
    using assms(1) by (simp add: filter_remove1)
  have ex: "exec (attempt (delay s) u r fin res) (fetchPage u r fin s) = Some ?s1"
    using False by (simp add: attempt_def fetchPage_def take_def)
  have p1: "filter (chain_cont u) (pending ?s1) = (if r > 0 then [RetryTimer 1000 u (r - 1)] else [])"
    using pD by (simp only: failed_resume(1) [OF assms(2)]) simp
  have l1: "r \<le> 0 \<Longrightarrow> trace ?s1 \<noteq> [] \<and> last (trace ?s1) = ErrorHandled (ErrorObj m) u"
    by (simp add: fetchPage_resume_failure [OF assms(2)] on_catch_effects)
  have d1: "delay ?s1 = delay s" by simp
  show ?thesis using ex p1 l1 d1 by blast
qed

lemma failing_run_exec:
  assumes "filter (chain_cont u) (pending s) = []" "length ress = Suc n"
    "\<forall>res \<in> set ress. fails_with_error res"
  shows "\<exists>s' m. exec (failing_run (delay s) u n fin ress) (fetchPage u (int n) fin s) = Some s' \<and>
      filter (chain_cont u) (pending s') = [] \<and>
      fetchUrl_result u (last ress) = Inl (ErrorObj m) \<and>
      trace s' \<noteq> [] \<and> last (trace s') = ErrorHandled (ErrorObj m) u"
  using assms
proof (induction n arbitrary: s fin ress)
  case 0
  then obtain res where ress: "ress = [res]" by (cases ress) auto
  have "fails_with_error res" using "0.prems"(3) ress by simp
  then obtain m where m: "fetchUrl_result u res = Inl (ErrorObj m)"
    using fails_with_error_result [of res u] by blast
  from attempt_exec [OF "0.prems"(1) m, of 0 fin] show ?case
    using ress m by auto
next
  case (Suc n)
  then obtain res rest where ress: "ress = res # rest" "length rest = Suc n"
    by (cases ress) auto
  have "fails_with_error res" using Suc.prems(3) ress by simp
  then obtain m where m: "fetchUrl_result u res = Inl (ErrorObj m)"
    using fails_with_error_result [of res u] by blast
  from attempt_exec [OF Suc.prems(1) m, of "int (Suc n)" fin]
  obtain s1 where s1:
    "exec (attempt (delay s) u (int (Suc n)) fin res) (fetchPage u (int (Suc n)) fin s) = Some s1"
    "delay s1 = delay s"
    "filter (chain_cont u) (pending s1) = [RetryTimer 1000 u (int n)]"
    by auto
  let ?k = "RetryTimer 1000 u (int n)"
  let ?s2 = "s1\<lparr>pending := remove1 ?k (pending s1)\<rparr>"
  have "?k \<in> set (filter (chain_cont u) (pending s1))" by (simp add: s1(3))
  then have mem: "?k \<in> set (pending s1)" by simp
  have st: "step (Wake ?k) s1 = Some (fetchPage u (int n) False ?s2)"
    using mem by (simp add: take_def)
  have p2: "filter (chain_cont u) (pending ?s2) = []"
    by (simp add: filter_remove1 s1(3))
  have d2: "delay ?s2 = delay s" by (simp add: s1(2))
  have fl: "\<forall>res \<in> set rest. fails_with_error res" using Suc.prems(3) ress by simp
  from Suc.IH [OF p2 ress(2) fl, of False] d2
  obtain s' m' where s':
    "exec (failing_run (delay s) u n False rest) (fetchPage u (int n) False ?s2) = Some s'"
    "filter (chain_cont u) (pending s') = []"
    "fetchUrl_result u (last rest) = Inl (ErrorObj m')"
    "trace s' \<noteq> []" "last (trace s') = ErrorHandled (ErrorObj m') u"
    by auto
  have "exec (failing_run (delay s) u (Suc n) fin ress) (fetchPage u (int (Suc n)) fin s) = Some s'"
    by (simp only: ress failing_run.simps exec_append s1(1) option.case exec.simps st s'(1))
  moreover have "last ress = last rest" using ress by auto
  ultimately show ?case using s'(2,3,4,5) by auto
qed

lemma attempt_allowed:
  "fails_with_error res \<Longrightarrow> \<forall>a \<in> set (attempt d u r fin res). allowed u a"
  by (simp add: attempt_def)

lemma failing_run_allowed:
  "\<forall>res \<in> set ress. fails_with_error res \<Longrightarrow> \<forall>a \<in> set (failing_run d u n fin ress). allowed u a"
  by (induction d u n fin ress rule: failing_run.induct) (auto simp: attempt_def)

lemma error_call_form: "error_call u e \<Longrightarrow> \<exists>m. e = ErrorHandled (ErrorObj m) u"
proof (cases e)
  case (ErrorHandled x v)
  assume "error_call u e"
  with ErrorHandled show ?thesis by (cases x) simp_all
qed simp_all

lemma chain_inv_result:
  assumes "chain_inv u N base s'"
  shows "(\<exists>b. 0 \<le> b \<and> b \<le> N \<and> filter (chain_cont u) (pending s') \<noteq> [] \<and>
            filter (chain_event u) (trace s') = base @ retry_timers u N b) \<or>
         (\<exists>m. filter (chain_cont u) (pending s') = [] \<and>
            filter (chain_event u) (trace s') = base @ retry_timers u N 0 @ [ErrorHandled (ErrorObj m) u])"
proof (cases "filter (chain_cont u) (pending s')")
  case Nil
  let ?p = "filter (chain_event u) (trace s')"
  from assms Nil have ne: "?p \<noteq> []" and bl: "butlast ?p = base @ retry_timers u N 0"
    and ec: "error_call u (last ?p)"
    by (simp_all add: chain_inv_def)
  from error_call_form [OF ec] obtain m where m: "last ?p = ErrorHandled (ErrorObj m) u" by blast
  have "?p = butlast ?p @ [last ?p]" using ne by simp
  also have "\<dots> = base @ retry_timers u N 0 @ [ErrorHandled (ErrorObj m) u]"
    by (simp only: bl m append_assoc)
  finally have eq: "?p = base @ retry_timers u N 0 @ [ErrorHandled (ErrorObj m) u]" .
  show ?thesis
    by (rule disjI2, rule exI [of _ m], rule conjI [OF Nil eq])
next
  case (Cons k rest)
  with assms have r: "rest = []" by (cases rest) (simp_all add: chain_inv_def)
  with Cons assms have b: "0 \<le> budget k \<and> budget k \<le> N \<and>
      filter (chain_event u) (trace s') = base @ retry_timers u N (budget k)"
    by (simp add: chain_inv_def)
  have ne: "filter (chain_cont u) (pending s') \<noteq> []" using Cons by simp
  show ?thesis
    by (rule disjI1, rule exI [of _ "budget k"]) (simp add: b ne)
qed

subsection \<open>Draining the queue\<close>

text \<open>The calls of \<open>fetch\<close> that each segment adds to the trace.\<close>

lemma fetch_calls_append [simp]: "fetch_calls (xs @ ys) = fetch_calls xs @ fetch_calls ys"
  by (induction xs rule: fetch_calls.induct) auto

lemma fetch_calls_segments [simp]:
  "fetch_calls (trace (fetchUrl u r fin s)) = fetch_calls (trace s) @ [u]"
  "fetch_calls (trace (fetchPage u r fin s)) =
     fetch_calls (trace s) @ (if delay s > 0 then [] else [u])"
  "fetch_calls (trace (on_catch u r e s)) = fetch_calls (trace s)"
  "fetch_calls (trace (fetchPage_resume u r fin res s)) = fetch_calls (trace s)"
  "fetch_calls (trace (checkQueue s)) = fetch_calls (trace s)"
  by (simp_all add: fetchPage_def on_catch_def fetchPage_resume_def checkQueue_def shift_def Let_def
      split: thrown.splits sum.splits option.splits list.splits)











lemma concat_map_remove1:
  "set (concat (map f (remove1 k p))) \<subseteq> set (concat (map f p))"
  by (induction p) auto

lemma delayed_segments [simp]:
  "delayed (fetchUrl u r fin s) = delayed s"
  "delayed (fetchPage_resume u r fin res s) = delayed s"
  "delayed (s\<lparr>activeRequests := a\<rparr>) = delayed s"
  by (simp_all add: delayed_def fetchPage_resume_def on_catch_def Let_def
      split: thrown.splits sum.splits option.splits)










text \<open>Every slot counted by \<open>activeRequests\<close> belongs to a worker that still runs or whose
  \<open>.finally\<close> callback is queued: an invariant of all runs.\<close>

lemma holders_remove1:
  "k \<in> set p \<Longrightarrow>
   int (length (filter P (remove1 k p))) = int (length (filter P p)) - (if P k then 1 else 0)"
  by (induction p) auto

lemma holders_segments [simp]:
  "filter holds_slot (pending (checkQueue s)) = filter holds_slot (pending s)"
  "filter holds_slot (pending (fetchPage u r fin s)) =
     filter holds_slot (pending s) @ (if fin then [if delay s > 0 then AwaitDelay (delay s) u r fin else AwaitFetch u r fin] else [])"
  "filter holds_slot (pending (fetchUrl u r fin s)) =
     filter holds_slot (pending s) @ (if fin then [AwaitFetch u r fin] else [])"
  "filter holds_slot (pending (fetchPage_resume u r fin res s)) =
     filter holds_slot (pending s) @ (if fin then [FinallyCb] else [])"
  by (simp_all add: checkQueue_def shift_def fetchPage_def fetchPage_resume_def on_catch_def Let_def
      split: thrown.splits sum.splits option.splits list.splits)

lemma slots_accounted_wake:
  assumes "slots_accounted s" "k \<in> set (pending s)" "\<forall>u r fin. k \<noteq> AwaitFetch u r fin"
  shows "slots_accounted (wake k (s\<lparr>pending := remove1 k (pending s)\<rparr>))"
  using assms holders_remove1 [OF assms(2), of holds_slot]
  by (cases k) (auto simp: slots_accounted_def Let_def)

lemma slots_accounted_respond:
  assumes "slots_accounted s" "AwaitFetch u r fin \<in> set (pending s)"
  shows "slots_accounted
           (fetchPage_resume u r fin res (s\<lparr>pending := remove1 (AwaitFetch u r fin) (pending s)\<rparr>))"
  using assms holders_remove1 [OF assms(2), of holds_slot]
  by (simp add: slots_accounted_def)

lemma slots_accounted_step:
  assumes "slots_accounted s" "step a s = Some s'"
  shows "slots_accounted s'"
proof (cases a)
  case (Wake k)
  show ?thesis
  proof (cases "\<exists>u r fin. k = AwaitFetch u r fin")
    case True
    with assms Wake show ?thesis by auto
  next
    case False
    then have nf: "\<forall>u r fin. k \<noteq> AwaitFetch u r fin" by simp
    from assms(2) Wake False have k: "k \<in> set (pending s)"
      by (cases k) (auto simp: take_def split: if_splits)
    from assms(2) Wake False k have "s' = wake k (s\<lparr>pending := remove1 k (pending s)\<rparr>)"
      by (cases k) (auto simp: take_def)
    with slots_accounted_wake [OF assms(1) k nf] show ?thesis by simp
  qed
next
  case (Respond u r fin res)
  from assms(2) Respond have k: "AwaitFetch u r fin \<in> set (pending s)"
    by (auto simp: take_def split: if_splits)
  from assms(2) Respond k have "s' = fetchPage_resume u r fin res
      (s\<lparr>pending := remove1 (AwaitFetch u r fin) (pending s)\<rparr>)"
    by (auto simp: take_def)
  with slots_accounted_respond [OF assms(1) k] show ?thesis by simp
qed (use assms in \<open>auto simp: slots_accounted_def addTask_def start_def stop_def pause_def
     resume_def setProxy_def setRetries_def setDelay_def setCookies_def setHeaders_def
     onItemProcess_def beforeRequest_def Let_def\<close>)

lemma slots_accounted_exec:
  "slots_accounted s \<Longrightarrow> exec as s = Some s' \<Longrightarrow> slots_accounted s'"
proof (induction as arbitrary: s)
  case Nil
  then show ?case by simp
next
  case (Cons a as)
  then show ?case by (auto split: option.splits intro: slots_accounted_step)
qed

lemma slots_accounted_reachable:
  "exec as (Crawler c rs) = Some s \<Longrightarrow> slots_accounted s"
  by (rule slots_accounted_exec [of "Crawler c rs"]) (simp_all add: slots_accounted_def Crawler_def)


lemma ready_emit [simp]: "ready (emit e y) v rest = ready y v rest"
  by (simp add: ready_def)



section \<open>The claims\<close>

text \<open>
  C1 (the code at the input of the claim). \<open>new Crawler(c).start()\<close> on an empty queue:
  the test of the \<open>while\<close> in \<open>checkQueue\<close> requires \<open>taskQueue.length > 0\<close>, so the
  loop is left at once. The run logs that it started and nothing else: the end handler is
  not called, and no continuation is pending that could call it later. (By
  \<open>end_handler_needs_empty_identifier\<close> the same holds of every later emptying of the
  queue: only popping the empty string reaches the call of the end handler.)
\<close>

theorem start_on_empty_queue:
  "map_option trace (exec [Start] (Crawler c rs)) = Some [Log ''Crawler started.''] \<and>
   map_option pending (exec [Start] (Crawler c rs)) = Some [] \<and>
   map_option phase (exec [Start] (Crawler c rs)) = Some Running"
  by (simp add: run_defs phase_def)

text \<open>
  C2 (the code at a failing run). Concurrency 1, default gate, no retries:
  \<open>start()\<close>, then \<open>addTask("a")\<close> and \<open>addTask("b")\<close> in the same synchronous block.
  Each \<open>addTask\<close> calls \<open>checkQueue\<close>, which passes the test
  \<open>activeRequests < concurrency\<close> (0 < 1), pops its identifier and suspends at
  \<open>await this.beforeRequestHandler(url)\<close> before \<open>activeRequests++\<close>. The two
  continuations then resume in the order they were queued, and each increments the
  counter and calls \<open>fetch\<close>: two network calls are outstanding, and the counter is 2,
  with a limit of 1.
\<close>

theorem two_drain_loops_exceed_limit:
  "map_option pending
     (exec [Start, AddTask ''a'', AddTask ''b'',
            Wake (AwaitGate ''a'' True), Wake (AwaitGate ''b'' True)] (Crawler 1 zeros))
     = Some [AwaitFetch ''a'' 0 True, AwaitFetch ''b'' 0 True] \<and>
   map_option outstanding
     (exec [Start, AddTask ''a'', AddTask ''b'',
            Wake (AwaitGate ''a'' True), Wake (AwaitGate ''b'' True)] (Crawler 1 zeros))
     = Some 2 \<and>
   map_option activeRequests
     (exec [Start, AddTask ''a'', AddTask ''b'',
            Wake (AwaitGate ''a'' True), Wake (AwaitGate ''b'' True)] (Crawler 1 zeros))
     = Some 2 \<and>
   map_option concurrency
     (exec [Start, AddTask ''a'', AddTask ''b'',
            Wake (AwaitGate ''a'' True), Wake (AwaitGate ''b'' True)] (Crawler 1 zeros))
     = Some 1 \<and>
   map_option phase
     (exec [Start, AddTask ''a'', AddTask ''b'',
            Wake (AwaitGate ''a'' True), Wake (AwaitGate ''b'' True)] (Crawler 1 zeros))
     = Some Running"
  by (simp add: run_defs phase_def outstanding_def)

text \<open>
  C3. A worker started with a retry budget \<open>N \<ge> 0\<close> (the value of \<open>this.retries\<close>, set by
  \<open>setRetries\<close>, that \<open>checkQueue\<close> passes to \<open>fetchPage\<close>) for an identifier \<open>u\<close> that no
  other pending worker is fetching. In every run, whatever else is scheduled in between,
  in which each fetch of \<open>u\<close> fails with an \<open>Error\<close> and no second worker for \<open>u\<close> is
  dispatched: the timers set for \<open>u\<close> and the error-handler calls for \<open>u\<close> are, at every
  moment, the 1000 ms timers for the budgets \<open>N - 1\<close> down to some \<open>b\<close> while a continuation
  of the worker is pending, and all \<open>N\<close> timers followed by exactly one call of the error
  handler once none is pending. The run in which every attempt gets its failing answer
  and every retry timer fires does end that way, and the error handler receives the
  failure of the last attempt together with \<open>u\<close>.
\<close>

theorem always_failing_task:
  assumes "0 \<le> N" "filter (chain_cont u) (pending s) = []"
  shows
   "(\<forall>as s'. (\<forall>a \<in> set as. allowed u a) \<and> exec as (fetchPage u N fin s) = Some s' \<longrightarrow>
       (\<exists>b. 0 \<le> b \<and> b \<le> N \<and> filter (chain_cont u) (pending s') \<noteq> [] \<and>
            filter (chain_event u) (trace s') =
              filter (chain_event u) (trace s) @ retry_timers u N b) \<or>
       (\<exists>m. filter (chain_cont u) (pending s') = [] \<and>
            filter (chain_event u) (trace s') =
              filter (chain_event u) (trace s) @ retry_timers u N 0 @
              [ErrorHandled (ErrorObj m) u])) \<and>
    (\<forall>ress. length ress = nat N + 1 \<and> (\<forall>res \<in> set ress. fails_with_error res) \<longrightarrow>
       (\<exists>s' m. exec (failing_run (delay s) u (nat N) fin ress) (fetchPage u N fin s) = Some s' \<and>
          filter (chain_cont u) (pending s') = [] \<and>
          fetchUrl_result u (last ress) = Inl (ErrorObj m) \<and>
          filter (chain_event u) (trace s') =
            filter (chain_event u) (trace s) @ retry_timers u N 0 @
            [ErrorHandled (ErrorObj m) u])) \<and>
    length (retry_timers u N 0) = nat N \<and>
    retry_timers u N 0 = map (\<lambda>j. TimerSet 1000 u j) (rev [0..N - 1])"
proof -
  let ?base = "filter (chain_event u) (trace s)"
  note init = chain_inv_init [OF assms, of fin]
  have safety: "(\<exists>b. 0 \<le> b \<and> b \<le> N \<and> filter (chain_cont u) (pending s') \<noteq> [] \<and>
            filter (chain_event u) (trace s') = ?base @ retry_timers u N b) \<or>
       (\<exists>m. filter (chain_cont u) (pending s') = [] \<and>
            filter (chain_event u) (trace s') =
              ?base @ retry_timers u N 0 @ [ErrorHandled (ErrorObj m) u])"
    if "\<forall>a \<in> set as. allowed u a" "exec as (fetchPage u N fin s) = Some s'" for as s'
    by (rule chain_inv_result [OF chain_inv_exec [OF init that]])
  have live: "\<exists>s' m. exec (failing_run (delay s) u (nat N) fin ress) (fetchPage u N fin s) = Some s' \<and>
          filter (chain_cont u) (pending s') = [] \<and>
          fetchUrl_result u (last ress) = Inl (ErrorObj m) \<and>
          filter (chain_event u) (trace s') =
            ?base @ retry_timers u N 0 @ [ErrorHandled (ErrorObj m) u]"
    if len: "length ress = nat N + 1" and fl: "\<forall>res \<in> set ress. fails_with_error res" for ress
  proof -
    have len': "length ress = Suc (nat N)" using len by simp
    from failing_run_exec [OF assms(2) len' fl, of fin] assms(1)
    obtain s' m where s':
      "exec (failing_run (delay s) u (nat N) fin ress) (fetchPage u N fin s) = Some s'"
      "filter (chain_cont u) (pending s') = []"
      "fetchUrl_result u (last ress) = Inl (ErrorObj m)"
      "trace s' \<noteq> []" "last (trace s') = ErrorHandled (ErrorObj m) u"
      by auto
    from safety [OF failing_run_allowed [OF fl] s'(1)] s'(2)
    obtain m' where m': "filter (chain_event u) (trace s') =
              ?base @ retry_timers u N 0 @ [ErrorHandled (ErrorObj m') u]"
      by auto
    have "last (filter (chain_event u) (trace s')) = last (trace s')"
      by (rule last_filter_last) (simp_all add: s'(4,5))
    with m' s'(5) have "m' = m" by simp
    with m' s'(1,2,3) show ?thesis by blast
  qed
  have cnt: "length (retry_timers u N 0) = nat N"
    by (rule length_retry_timers [OF assms(1)])
  have form: "retry_timers u N 0 = map (\<lambda>j. TimerSet 1000 u j) (rev [0..N - 1])"
    by (simp add: retry_timers_def)
  have A: "\<forall>as s'. (\<forall>a \<in> set as. allowed u a) \<and> exec as (fetchPage u N fin s) = Some s' \<longrightarrow>
       (\<exists>b. 0 \<le> b \<and> b \<le> N \<and> filter (chain_cont u) (pending s') \<noteq> [] \<and>
            filter (chain_event u) (trace s') =
              filter (chain_event u) (trace s) @ retry_timers u N b) \<or>
       (\<exists>m. filter (chain_cont u) (pending s') = [] \<and>
            filter (chain_event u) (trace s') =
              filter (chain_event u) (trace s) @ retry_timers u N 0 @
              [ErrorHandled (ErrorObj m) u])"
  proof (intro allI impI)
    fix as s'
    assume h: "(\<forall>a \<in> set as. allowed u a) \<and> exec as (fetchPage u N fin s) = Some s'"
    show "(\<exists>b. 0 \<le> b \<and> b \<le> N \<and> filter (chain_cont u) (pending s') \<noteq> [] \<and>
            filter (chain_event u) (trace s') =
              filter (chain_event u) (trace s) @ retry_timers u N b) \<or>
       (\<exists>m. filter (chain_cont u) (pending s') = [] \<and>
            filter (chain_event u) (trace s') =
              filter (chain_event u) (trace s) @ retry_timers u N 0 @
              [ErrorHandled (ErrorObj m) u])"
      by (rule safety [OF h [THEN conjunct1] h [THEN conjunct2]])
  qed
  have B: "\<forall>ress. length ress = nat N + 1 \<and> (\<forall>res \<in> set ress. fails_with_error res) \<longrightarrow>
       (\<exists>s' m. exec (failing_run (delay s) u (nat N) fin ress) (fetchPage u N fin s) = Some s' \<and>
          filter (chain_cont u) (pending s') = [] \<and>
          fetchUrl_result u (last ress) = Inl (ErrorObj m) \<and>
          filter (chain_event u) (trace s') =
            filter (chain_event u) (trace s) @ retry_timers u N 0 @
            [ErrorHandled (ErrorObj m) u])"
  proof (intro allI impI)
    fix ress
    assume h: "length ress = nat N + 1 \<and> (\<forall>res \<in> set ress. fails_with_error res)"
    show "\<exists>s' m. exec (failing_run (delay s) u (nat N) fin ress) (fetchPage u N fin s) = Some s' \<and>
          filter (chain_cont u) (pending s') = [] \<and>
          fetchUrl_result u (last ress) = Inl (ErrorObj m) \<and>
          filter (chain_event u) (trace s') =
            filter (chain_event u) (trace s) @ retry_timers u N 0 @
            [ErrorHandled (ErrorObj m) u]"
      by (rule live [OF h [THEN conjunct1] h [THEN conjunct2]])
  qed
  show ?thesis
    by (intro conjI A B cnt form)
qed

theorem always_failing_task_witness:
  "(0::int) \<le> 2 \<and>
   exec [SetRetries 2, AddTask ''u'', Start, Wake (AwaitGate ''u'' True)] (Crawler 1 zeros)
     = Some (fetchPage ''u'' 2 True dispatched) \<and>
   filter (chain_cont ''u'') (pending dispatched) = [] \<and>
   length three_failures = nat 2 + 1 \<and>
   list_all fails_with_error three_failures \<and>
   list_all (allowed ''u'') (failing_run (delay dispatched) ''u'' (nat 2) True three_failures) \<and>
   failing_run (delay dispatched) ''u'' (nat 2) True three_failures =
     [Respond ''u'' 2 True (RespNotOk ''500''), Wake (RetryTimer 1000 ''u'' 1),
      Respond ''u'' 1 False (Rejected (ErrorObj ''down'')), Wake (RetryTimer 1000 ''u'' 0),
      Respond ''u'' 0 False (RespNotOk ''503'')] \<and>
   map_option (filter (chain_event ''u'') \<circ> trace)
     (exec (failing_run (delay dispatched) ''u'' (nat 2) True three_failures)
        (fetchPage ''u'' 2 True dispatched))
     = Some [TimerSet 1000 ''u'' 1, TimerSet 1000 ''u'' 0,
             ErrorHandled (ErrorObj ''Failed to fetch u: Request Failed. Status Code: 503'') ''u''] \<and>
   map_option (filter (chain_cont ''u'') \<circ> pending)
     (exec (failing_run (delay dispatched) ''u'' (nat 2) True three_failures)
        (fetchPage ''u'' 2 True dispatched))
     = Some []"
proof -
  have h1: "(0::int) \<le> 2" by simp
  have h2: "filter (chain_cont ''u'') (pending dispatched) = []"
    by (simp add: dispatched_def)
  have d: "delay dispatched = 0"
    by (simp add: dispatched_def run_defs)
  have run: "exec [SetRetries 2, AddTask ''u'', Start, Wake (AwaitGate ''u'' True)] (Crawler 1 zeros)
     = Some (fetchPage ''u'' 2 True dispatched)"
    by (simp add: dispatched_def run_defs)
  have len: "length three_failures = nat 2 + 1"
    by (simp add: three_failures_def)
  have fl: "\<forall>res \<in> set three_failures. fails_with_error res"
    by (simp add: three_failures_def)
  have n2: "nat 2 = Suc (Suc 0)" by simp
  have sched: "failing_run (delay dispatched) ''u'' (nat 2) True three_failures =
     [Respond ''u'' 2 True (RespNotOk ''500''), Wake (RetryTimer 1000 ''u'' 1),
      Respond ''u'' 1 False (Rejected (ErrorObj ''down'')), Wake (RetryTimer 1000 ''u'' 0),
      Respond ''u'' 0 False (RespNotOk ''503'')]"
    unfolding n2 three_failures_def d by (simp add: attempt_def)
  have al: "list_all (allowed ''u'') (failing_run (delay dispatched) ''u'' (nat 2) True three_failures)"
    unfolding sched by simp
  note live = always_failing_task [OF h1 h2, of True, THEN conjunct2, THEN conjunct1,
      rule_format, of three_failures]
  from live len fl obtain s' m where s':
    "exec (failing_run (delay dispatched) ''u'' (nat 2) True three_failures)
        (fetchPage ''u'' 2 True dispatched) = Some s'"
    "filter (chain_cont ''u'') (pending s') = []"
    "fetchUrl_result ''u'' (last three_failures) = Inl (ErrorObj m)"
    "filter (chain_event ''u'') (trace s') =
       filter (chain_event ''u'') (trace dispatched) @ retry_timers ''u'' 2 0 @
       [ErrorHandled (ErrorObj m) ''u'']"
    by blast
  have m: "m = ''Failed to fetch u: Request Failed. Status Code: 503''"
    using s'(3) by (simp add: three_failures_def fetchUrl_result_def)
  have base: "filter (chain_event ''u'') (trace dispatched) = []"
    by (simp add: dispatched_def run_defs)
  have ts: "retry_timers ''u'' 2 0 = [TimerSet 1000 ''u'' 1, TimerSet 1000 ''u'' 0]"
    by (simp add: retry_timers_def upto_rec1)
  have ev: "filter (chain_event ''u'') (trace s') =
      [TimerSet 1000 ''u'' 1, TimerSet 1000 ''u'' 0,
       ErrorHandled (ErrorObj ''Failed to fetch u: Request Failed. Status Code: 503'') ''u'']"
    using s'(4) by (simp add: m base ts)
  have fa: "list_all fails_with_error three_failures" by (simp add: three_failures_def)
  have r1: "map_option (filter (chain_event ''u'') \<circ> trace)
     (exec (failing_run (delay dispatched) ''u'' (nat 2) True three_failures)
        (fetchPage ''u'' 2 True dispatched))
     = Some [TimerSet 1000 ''u'' 1, TimerSet 1000 ''u'' 0,
             ErrorHandled (ErrorObj ''Failed to fetch u: Request Failed. Status Code: 503'') ''u'']"
    unfolding s'(1) by (simp add: ev)
  have r2: "map_option (filter (chain_cont ''u'') \<circ> pending)
     (exec (failing_run (delay dispatched) ''u'' (nat 2) True three_failures)
        (fetchPage ''u'' 2 True dispatched))
     = Some []"
    unfolding s'(1) by (simp add: s'(2))
  show ?thesis
    by (intro conjI h1 run h2 len fa al sched r1 r2)
qed

text \<open>
  C4. A worker started by the drain loop whose attempt fails with retry budget \<open>r > 0\<close>:
  the step that handles the failure logs the retry, sets the 1000 ms timer for
  \<open>fetchPage(url, r - 1)\<close> and settles the promise of the worker, so its \<open>.finally\<close>
  callback is queued in that same step; when the callback runs, the in-flight counter is
  decremented while the retry timer is still pending. The retry itself (the timer
  callback, its delay and its fetch) carries no \<open>.finally\<close> callback: it leaves the
  counter as it is, queues no release, and reports to the item processor and the error
  handler exactly as a worker of the drain loop does.
\<close>

theorem retry_releases_slot:
  assumes "AwaitFetch u r True \<in> set (pending s)" "r > 0" "fetchUrl_result u res = Inl e"
  shows
   "(\<exists>s1 s2.
       step (Respond u r True res) s = Some s1 \<and>
       pending s1 =
         remove1 (AwaitFetch u r True) (pending s) @ [RetryTimer 1000 u (r - 1), FinallyCb] \<and>
       trace s1 = trace s @ [LogRetrying u r, TimerSet 1000 u (r - 1)] \<and>
       activeRequests s1 = activeRequests s \<and>
       step (Wake FinallyCb) s1 = Some s2 \<and>
       activeRequests s2 = activeRequests s - 1 \<and>
       RetryTimer 1000 u (r - 1) \<in> set (pending s2)) \<and>
    (\<forall>t k. activeRequests (wake (RetryTimer 1000 u k) t) = activeRequests t \<and>
       pending (wake (RetryTimer 1000 u k) t) =
         pending t @ [if delay t > 0 then AwaitDelay (delay t) u k False
                      else AwaitFetch u k False] \<and>
       pending (wake (AwaitDelay (delay t) u k False) t) = pending t @ [AwaitFetch u k False] \<and>
       activeRequests (wake (AwaitDelay (delay t) u k False) t) = activeRequests t) \<and>
    (\<forall>t k res'. AwaitFetch u k False \<in> set (pending t) \<longrightarrow>
       (\<exists>t'. step (Respond u k False res') t = Some t' \<and>
          activeRequests t' = activeRequests t \<and>
          finally_pending t' = finally_pending t \<and>
          trace t' = trace (fetchPage_resume u k True res' t)))"
proof -
  let ?s0 = "s\<lparr>pending := remove1 (AwaitFetch u r True) (pending s)\<rparr>"
  let ?s1 = "fetchPage_resume u r True res ?s0"
  have st1: "step (Respond u r True res) s = Some ?s1"
    using assms(1) by (simp add: take_def)
  have p1: "pending ?s1 =
      remove1 (AwaitFetch u r True) (pending s) @ [RetryTimer 1000 u (r - 1), FinallyCb]"
    using assms(2,3) by (simp add: fetchPage_resume_failure on_catch_effects)
  have t1: "trace ?s1 = trace s @ [LogRetrying u r, TimerSet 1000 u (r - 1)]"
    using assms(2,3) by (simp add: fetchPage_resume_failure on_catch_effects)
  have a1: "activeRequests ?s1 = activeRequests s" by simp
  let ?s1' = "?s1\<lparr>pending := remove1 FinallyCb (pending ?s1)\<rparr>"
  let ?s2 = "wake FinallyCb ?s1'"
  have st2: "step (Wake FinallyCb) ?s1 = Some ?s2"
    by (simp add: take_def p1)
  have a2: "activeRequests ?s2 = activeRequests s - 1"
    by (simp add: Let_def)
  have "RetryTimer 1000 u (r - 1) \<in> set (pending ?s1')"
    by (simp add: p1)
  then have m2: "RetryTimer 1000 u (r - 1) \<in> set (pending ?s2)"
    using checkQueue_keeps_pending [of "?s1'\<lparr>activeRequests := activeRequests ?s1' - 1\<rparr>"]
    by (auto simp: Let_def)
  have first: "\<exists>s1 s2.
       step (Respond u r True res) s = Some s1 \<and>
       pending s1 =
         remove1 (AwaitFetch u r True) (pending s) @ [RetryTimer 1000 u (r - 1), FinallyCb] \<and>
       trace s1 = trace s @ [LogRetrying u r, TimerSet 1000 u (r - 1)] \<and>
       activeRequests s1 = activeRequests s \<and>
       step (Wake FinallyCb) s1 = Some s2 \<and>
       activeRequests s2 = activeRequests s - 1 \<and>
       RetryTimer 1000 u (r - 1) \<in> set (pending s2)"
    using st1 p1 t1 a1 st2 a2 m2 by blast
  have second: "activeRequests (wake (RetryTimer 1000 u k) t) = activeRequests t \<and>
       pending (wake (RetryTimer 1000 u k) t) =
         pending t @ [if delay t > 0 then AwaitDelay (delay t) u k False
                      else AwaitFetch u k False] \<and>
       pending (wake (AwaitDelay (delay t) u k False) t) = pending t @ [AwaitFetch u k False] \<and>
       activeRequests (wake (AwaitDelay (delay t) u k False) t) = activeRequests t" for t k
    by (simp add: fetchPage_pending)
  have third: "\<exists>t'. step (Respond u k False res') t = Some t' \<and>
          activeRequests t' = activeRequests t \<and>
          finally_pending t' = finally_pending t \<and>
          trace t' = trace (fetchPage_resume u k True res' t)"
    if mem: "AwaitFetch u k False \<in> set (pending t)" for t k res'
  proof -
    let ?t0 = "t\<lparr>pending := remove1 (AwaitFetch u k False) (pending t)\<rparr>"
    have "step (Respond u k False res') t = Some (fetchPage_resume u k False res' ?t0)"
      using mem by (simp add: take_def)
    moreover have "finally_pending (fetchPage_resume u k False res' ?t0) = finally_pending t"
      by (simp add: finally_pending_def fetchPage_resume_pending filter_remove1_other)
    moreover have "trace (fetchPage_resume u k False res' ?t0) = trace (fetchPage_resume u k True res' t)"
      by (rule fetchPage_resume_trace_indep)
    moreover have "activeRequests (fetchPage_resume u k False res' ?t0) = activeRequests t"
      by simp
    ultimately show ?thesis by blast
  qed
  show ?thesis using first second third by blast
qed

theorem retry_releases_slot_witness:
  "\<exists>s. exec [SetRetries 1, AddTask ''u'', Start, Wake (AwaitGate ''u'' True)] (Crawler 1 zeros)
         = Some s \<and>
       AwaitFetch ''u'' 1 True \<in> set (pending s) \<and> (0::int) < 1 \<and>
       fetchUrl_result ''u'' (RespNotOk ''500'') =
         Inl (ErrorObj ''Failed to fetch u: Request Failed. Status Code: 500'') \<and>
       activeRequests s = 1 \<and>
       (\<exists>s1 s2. step (Respond ''u'' 1 True (RespNotOk ''500'')) s = Some s1 \<and>
          pending s1 = [RetryTimer 1000 ''u'' 0, FinallyCb] \<and>
          activeRequests s1 = 1 \<and>
          step (Wake FinallyCb) s1 = Some s2 \<and>
          activeRequests s2 = 0 \<and>
          RetryTimer 1000 ''u'' 0 \<in> set (pending s2))"
proof -
  obtain s where ex:
    "exec [SetRetries 1, AddTask ''u'', Start, Wake (AwaitGate ''u'' True)] (Crawler 1 zeros) = Some s"
    by (simp add: run_defs)
  have p: "pending s = [AwaitFetch ''u'' 1 True]" and a: "activeRequests s = 1"
    using ex by (auto simp: run_defs)
  have h1: "AwaitFetch ''u'' 1 True \<in> set (pending s)" by (simp add: p)
  have h2: "(0::int) < 1" by simp
  have h3: "fetchUrl_result ''u'' (RespNotOk ''500'') =
         Inl (ErrorObj ''Failed to fetch u: Request Failed. Status Code: 500'')"
    by (simp add: fetchUrl_result_def)
  from retry_releases_slot [OF h1 h2 h3, THEN conjunct1]
  obtain s1 s2 where r:
    "step (Respond ''u'' 1 True (RespNotOk ''500'')) s = Some s1"
    "pending s1 = remove1 (AwaitFetch ''u'' 1 True) (pending s) @ [RetryTimer 1000 ''u'' (1 - 1), FinallyCb]"
    "activeRequests s1 = activeRequests s"
    "step (Wake FinallyCb) s1 = Some s2"
    "activeRequests s2 = activeRequests s - 1"
    "RetryTimer 1000 ''u'' (1 - 1) \<in> set (pending s2)"
    by blast
  have "pending s1 = [RetryTimer 1000 ''u'' 0, FinallyCb]" using r(2) by (simp add: p)
  moreover have "activeRequests s1 = 1" using r(3) by (simp add: a)
  moreover have "activeRequests s2 = 0" using r(5) by (simp add: a)
  moreover have "RetryTimer 1000 ''u'' 0 \<in> set (pending s2)" using r(6) by simp
  ultimately show ?thesis using ex h1 h2 h3 a r(1) r(4) by blast
qed

text \<open>
  C5. A sequence of \<open>addTask\<close> calls, duplicates included, on a crawler that is not
  active (so nothing is popped in between): the queue afterwards is the first
  occurrences of the old queue followed by the new identifiers, in order of first
  insertion, without duplicates, and \<open>getTaskCount()\<close> is the number of distinct
  identifiers. One more \<open>addTask\<close> leaves the queue as it is for an identifier already
  present and appends a new one at the tail. In every state, active or not, the queue
  after \<open>addTask\<close> has no duplicates and is that deduplicated queue, or its tail when the
  drain loop that \<open>addTask\<close> calls has popped the head.
\<close>

theorem addTask_deduplicates:
  assumes "distinct (taskQueue s)" "\<not> active s"
  shows
   "\<exists>s'. exec (map AddTask us) s = Some s' \<and>
      taskQueue s' = unique (taskQueue s @ us) \<and>
      distinct (taskQueue s') \<and>
      set (taskQueue s') = set (taskQueue s) \<union> set us \<and>
      getTaskCount s' = card (set (taskQueue s) \<union> set us) \<and>
      (\<forall>v. unique (taskQueue s' @ [v]) =
             (if v \<in> set (taskQueue s') then taskQueue s' else taskQueue s' @ [v])) \<and>
      (\<forall>t v. distinct (taskQueue (addTask v t)) \<and>
             (taskQueue (addTask v t) = unique (taskQueue t @ [v]) \<or>
              taskQueue (addTask v t) = tl (unique (taskQueue t @ [v]))))"
proof -
  from addTasks_inactive [OF assms(2), of us] obtain s' where
    ex: "exec (map AddTask us) s = Some s'" and
    u: "unique (taskQueue s') = unique (taskQueue s @ us)" and
    ne: "us \<noteq> [] \<longrightarrow> taskQueue s' = unique (taskQueue s @ us)"
    by blast
  have q: "taskQueue s' = unique (taskQueue s @ us)"
  proof (cases "us = []")
    case True
    then show ?thesis using ex assms(1) by (simp add: unique_distinct)
  next
    case False
    then show ?thesis using ne by simp
  qed
  have d: "distinct (taskQueue s')" by (simp add: q)
  have st: "set (taskQueue s') = set (taskQueue s) \<union> set us" by (simp add: q)
  have cnt: "getTaskCount s' = card (set (taskQueue s) \<union> set us)"
    by (simp add: getTaskCount_def q length_unique)
  have snoc: "unique (taskQueue s' @ [v]) =
             (if v \<in> set (taskQueue s') then taskQueue s' else taskQueue s' @ [v])" for v
    using d by (simp add: unique_snoc unique_distinct)
  have gen: "distinct (taskQueue (addTask v t)) \<and>
             (taskQueue (addTask v t) = unique (taskQueue t @ [v]) \<or>
              taskQueue (addTask v t) = tl (unique (taskQueue t @ [v])))" for t v
    using addTask_queue [of v t] by (auto simp: distinct_tl)
  show ?thesis using ex q d st cnt snoc gen by blast
qed

theorem addTask_deduplicates_witness:
  "distinct (taskQueue (Crawler 1 zeros)) \<and> \<not> active (Crawler 1 zeros) \<and>
   map_option taskQueue (exec (map AddTask [''a'', ''b'', ''a'', ''c'', ''b'']) (Crawler 1 zeros))
     = Some [''a'', ''b'', ''c''] \<and>
   map_option getTaskCount (exec (map AddTask [''a'', ''b'', ''a'', ''c'', ''b'']) (Crawler 1 zeros))
     = Some 3"
proof -
  have h: "distinct (taskQueue (Crawler 1 zeros))" "\<not> active (Crawler 1 zeros)"
    by (simp_all add: Crawler_def)
  from addTask_deduplicates [OF h, of "[''a'', ''b'', ''a'', ''c'', ''b'']"]
  obtain s' where ex: "exec (map AddTask [''a'', ''b'', ''a'', ''c'', ''b'']) (Crawler 1 zeros) = Some s'"
    and q: "taskQueue s' = unique (taskQueue (Crawler 1 zeros) @ [''a'', ''b'', ''a'', ''c'', ''b''])"
    and c: "getTaskCount s' = card (set (taskQueue (Crawler 1 zeros)) \<union> set [''a'', ''b'', ''a'', ''c'', ''b''])"
    by blast
  have e: "taskQueue (Crawler 1 zeros) = []" by (simp add: Crawler_def)
  have q': "taskQueue s' = [''a'', ''b'', ''c'']" by (simp add: q e)
  have c': "getTaskCount s' = 3" by (simp add: getTaskCount_def q')
  show ?thesis using h ex q' c' by simp
qed

text \<open>
  C6. Gate rejection. When the drain loop pops an identifier \<open>u\<close> and the gate answers
  false, the loop suspends with that answer and consumes no slot. When it resumes, it
  only logs the blocked identifier and returns to the test of the loop: the in-flight
  counter is unchanged, no \<open>fetch\<close>, item-processor call, error-handler call, retry log
  or retry timer is added to the trace, no worker continuation is added to the pending
  ones, and the queue is what it was or has lost its head to the next iteration (the
  identifier is not put back).
\<close>

theorem gate_rejection_discards:
  assumes "active s" "\<not> paused s" "activeRequests s < concurrency s"
    "taskQueue s = u # q" "u \<noteq> []" "\<not> beforeRequestHandler s u"
  shows
   "pending (checkQueue s) = pending s @ [AwaitGate u False] \<and>
    trace (checkQueue s) = trace s @ [GateCalled u] \<and>
    taskQueue (checkQueue s) = q \<and>
    activeRequests (checkQueue s) = activeRequests s \<and>
    (\<forall>t. AwaitGate u False \<in> set (pending t) \<longrightarrow>
       (\<exists>t'. step (Wake (AwaitGate u False)) t = Some t' \<and>
          t' = checkQueue (emit (Log (''Before request handler blocked URL: '' @ u))
                 (t\<lparr>pending := remove1 (AwaitGate u False) (pending t)\<rparr>)) \<and>
          activeRequests t' = activeRequests t \<and>
          filter worker_event (trace t') = filter worker_event (trace t) \<and>
          filter worker_cont (pending t') = filter worker_cont (pending t) \<and>
          (taskQueue t' = taskQueue t \<or> taskQueue t' = tl (taskQueue t))))"
proof -
  have pop: "checkQueue s =
      suspend (AwaitGate u False) (emit (GateCalled u) (s\<lparr>taskQueue := q\<rparr>))"
    using assms by (simp add: checkQueue_pop)
  have later: "\<exists>t'. step (Wake (AwaitGate u False)) t = Some t' \<and>
          t' = checkQueue (emit (Log (''Before request handler blocked URL: '' @ u))
                 (t\<lparr>pending := remove1 (AwaitGate u False) (pending t)\<rparr>)) \<and>
          activeRequests t' = activeRequests t \<and>
          filter worker_event (trace t') = filter worker_event (trace t) \<and>
          filter worker_cont (pending t') = filter worker_cont (pending t) \<and>
          (taskQueue t' = taskQueue t \<or> taskQueue t' = tl (taskQueue t))"
    if mem: "AwaitGate u False \<in> set (pending t)" for t
  proof -
    let ?t0 = "emit (Log (''Before request handler blocked URL: '' @ u))
                 (t\<lparr>pending := remove1 (AwaitGate u False) (pending t)\<rparr>)"
    have st: "step (Wake (AwaitGate u False)) t = Some (checkQueue ?t0)"
      using mem by (simp add: take_def)
    have "filter worker_event (trace (checkQueue ?t0)) = filter worker_event (trace t)"
      by (simp add: checkQueue_worker_free(1))
    moreover have
      "filter worker_cont (pending (checkQueue ?t0)) = filter worker_cont (pending t)"
      by (simp add: checkQueue_worker_free(2) filter_remove1_other)
    moreover have
      "taskQueue (checkQueue ?t0) = taskQueue t \<or> taskQueue (checkQueue ?t0) = tl (taskQueue t)"
      using checkQueue_worker_free(3) [of ?t0] by simp
    ultimately show ?thesis using st by simp
  qed
  show ?thesis using pop later by simp
qed

theorem gate_rejection_discards_witness:
  "active gate_closed \<and> \<not> paused gate_closed \<and>
   activeRequests gate_closed < concurrency gate_closed \<and>
   taskQueue gate_closed = ''u'' # [] \<and> ''u'' \<noteq> [] \<and>
   \<not> beforeRequestHandler gate_closed ''u'' \<and>
   pending (checkQueue gate_closed) = [AwaitGate ''u'' False] \<and>
   trace (checkQueue gate_closed) = [Log ''Crawler started.'', GateCalled ''u''] \<and>
   taskQueue (checkQueue gate_closed) = [] \<and>
   activeRequests (checkQueue gate_closed) = 0 \<and>
   exec [BeforeRequest deny_all, Start, AddTask ''u''] (Crawler 2 zeros)
     = Some (checkQueue gate_closed) \<and>
   map_option pending
     (step (Wake (AwaitGate ''u'' False)) (checkQueue gate_closed)) = Some [] \<and>
   map_option activeRequests
     (step (Wake (AwaitGate ''u'' False)) (checkQueue gate_closed)) = Some 0 \<and>
   map_option (filter worker_event \<circ> trace)
     (step (Wake (AwaitGate ''u'' False)) (checkQueue gate_closed)) = Some []"
proof -
  have h: "active gate_closed" "\<not> paused gate_closed"
    "activeRequests gate_closed < concurrency gate_closed"
    "taskQueue gate_closed = ''u'' # []" "''u'' \<noteq> []"
    "\<not> beforeRequestHandler gate_closed ''u''"
    by (simp_all add: gate_closed_def run_defs deny_all_def)
  have f: "pending gate_closed = []" "trace gate_closed = [Log ''Crawler started.'']"
    "activeRequests gate_closed = 0"
    by (simp_all add: gate_closed_def run_defs)
  note th = gate_rejection_discards [OF h]
  have p: "pending (checkQueue gate_closed) = [AwaitGate ''u'' False]"
    using th [THEN conjunct1] by (simp add: f)
  have t: "trace (checkQueue gate_closed) = [Log ''Crawler started.'', GateCalled ''u'']"
    using th [THEN conjunct2, THEN conjunct1] by (simp add: f)
  have q: "taskQueue (checkQueue gate_closed) = []"
    by (rule th [THEN conjunct2, THEN conjunct2, THEN conjunct1])
  have a: "activeRequests (checkQueue gate_closed) = 0"
    using th [THEN conjunct2, THEN conjunct2, THEN conjunct2, THEN conjunct1] by (simp add: f)
  have run: "exec [BeforeRequest deny_all, Start, AddTask ''u''] (Crawler 2 zeros)
     = Some (checkQueue gate_closed)"
    by (simp add: gate_closed_def run_defs)
  have mem: "AwaitGate ''u'' False \<in> set (pending (checkQueue gate_closed))"
    by (simp add: p)
  from th [THEN conjunct2, THEN conjunct2, THEN conjunct2, THEN conjunct2, rule_format, OF mem]
  obtain t' where t':
    "step (Wake (AwaitGate ''u'' False)) (checkQueue gate_closed) = Some t'"
    "activeRequests t' = activeRequests (checkQueue gate_closed)"
    "filter worker_event (trace t') = filter worker_event (trace (checkQueue gate_closed))"
    "filter worker_cont (pending t') = filter worker_cont (pending (checkQueue gate_closed))"
    "t' = checkQueue (emit (Log (''Before request handler blocked URL: '' @ ''u''))
           ((checkQueue gate_closed)\<lparr>pending :=
              remove1 (AwaitGate ''u'' False) (pending (checkQueue gate_closed))\<rparr>))"
    by blast
  have idle: "checkQueue (emit (Log (''Before request handler blocked URL: '' @ ''u''))
           ((checkQueue gate_closed)\<lparr>pending :=
              remove1 (AwaitGate ''u'' False) (pending (checkQueue gate_closed))\<rparr>)) =
        emit (Log (''Before request handler blocked URL: '' @ ''u''))
           ((checkQueue gate_closed)\<lparr>pending :=
              remove1 (AwaitGate ''u'' False) (pending (checkQueue gate_closed))\<rparr>)"
    by (rule checkQueue_idle) (simp add: q)
  have p': "pending t' = []"
    unfolding t'(5) idle by (simp add: p)
  have r1: "map_option pending
     (step (Wake (AwaitGate ''u'' False)) (checkQueue gate_closed)) = Some []"
    unfolding t'(1) by (simp add: p')
  have r2: "map_option activeRequests
     (step (Wake (AwaitGate ''u'' False)) (checkQueue gate_closed)) = Some 0"
    unfolding t'(1) by (simp add: t'(2) f)
  have r3: "map_option (filter worker_event \<circ> trace)
     (step (Wake (AwaitGate ''u'' False)) (checkQueue gate_closed)) = Some []"
    unfolding t'(1) by (simp add: t'(3) t)
  show ?thesis
    by (intro conjI h p t q a run r1 r2 r3)
qed




text \<open>
  C8. The lifecycle state machine: \<open>start()\<close> moves an inactive crawler (Idle or
  Stopped) to Running, with \<open>active = true\<close> and \<open>paused = false\<close>, and only logs when
  the crawler is Running or Paused; \<open>stop()\<close> moves every state to Stopped and leaves
  the pending continuations of the workers in flight, and the in-flight counter, as they
  are; \<open>pause()\<close> moves Running to Paused; \<open>resume()\<close> moves Paused to Running and
  calls the drain loop, and only logs in every other state.
\<close>

theorem lifecycle_state_machine:
  "(phase s = Inactive \<longrightarrow>
      phase (start s) = Running \<and> active (start s) \<and> \<not> paused (start s)) \<and>
   (phase s \<noteq> Inactive \<longrightarrow> start s = emit (Log ''Crawler is already running.'') s) \<and>
   phase (stop s) = Inactive \<and> \<not> active (stop s) \<and> pending (stop s) = pending s \<and>
   activeRequests (stop s) = activeRequests s \<and>
   (phase s = Running \<longrightarrow> phase (pause s) = Paused \<and> pending (pause s) = pending s) \<and>
   (phase s = Paused \<longrightarrow>
      phase (resume s) = Running \<and>
      resume s = emit (Log ''Crawler resumed.'') (checkQueue (s\<lparr>paused := False\<rparr>))) \<and>
   (phase s \<noteq> Paused \<longrightarrow>
      resume s = emit (Log ''Cannot resume crawler. It is either not active or not paused.'') s)"
  by (auto simp: phase_def start_def stop_def pause_def resume_def split: if_splits)

theorem lifecycle_state_machine_witness:
  "phase (Crawler 1 zeros) = Inactive \<and>
   phase (start (Crawler 1 zeros)) = Running \<and>
   start (start (Crawler 1 zeros)) =
     emit (Log ''Crawler is already running.'') (start (Crawler 1 zeros)) \<and>
   phase (pause (start (Crawler 1 zeros))) = Paused \<and>
   phase (resume (pause (start (Crawler 1 zeros)))) = Running \<and>
   resume (start (Crawler 1 zeros)) =
     emit (Log ''Cannot resume crawler. It is either not active or not paused.'')
       (start (Crawler 1 zeros)) \<and>
   phase (stop (pause (start (Crawler 1 zeros)))) = Inactive"
  using lifecycle_state_machine [of "Crawler 1 zeros"]
    lifecycle_state_machine [of "start (Crawler 1 zeros)"]
    lifecycle_state_machine [of "pause (start (Crawler 1 zeros))"]
  by (simp add: phase_def start_def pause_def Crawler_def)

text \<open>
  C9. For every fetch attempt and every value \<open>r\<close> of \<open>Math.random()\<close> (a binary64 number
  in [0, 1), so at most 1 minus 2 to the power -53): the request is a GET whose headers are the configured
  mapping with the key \<open>Cookie\<close> set to the configured cookie string (the empty string when
  unset); its proxy is absent when no proxy is configured (the empty string), is the
  configured address when the setting is a single address, and, when the setting is a
  list of addresses (not empty, no empty address, fewer than 2 to the power 32 entries as every
  JavaScript array), is the entry of the list at the index
  \<open>Math.floor(r * length)\<close>. That index is inside the list; it is the floor of the exact
  product or, when the product rounds up to an integer, the next index; so the index
  \<open>j\<close> is drawn by every \<open>r\<close> with \<open>j \<le> r * length\<close> and
  \<open>r * length * (1 + u) < j + 1\<close>, where \<open>u\<close> is 2 to the power -53: every entry has the same share \<open>1 / length\<close> of
  [0, 1), up to one rounding. The request is a function of the settings and of \<open>r\<close>
  alone, and \<open>fetchUrl\<close> passes exactly that request to \<open>fetch\<close>.
\<close>

theorem request_builder:
  assumes "0 \<le> r" "r \<le> 1 - 1 / 2 ^ 53"
  shows
   "req_method (build_options s r) = ''GET'' \<and>
    req_headers (build_options s r) = (headers s)(''Cookie'' \<mapsto> cookies s) \<and>
    (proxy s = Single [] \<longrightarrow> req_proxy (build_options s r) = None) \<and>
    (\<forall>p. proxy s = Single p \<and> p \<noteq> [] \<longrightarrow> req_proxy (build_options s r) = Some p) \<and>
    (\<forall>xs. proxy s = Pool xs \<and> xs \<noteq> [] \<and> [] \<notin> set xs \<and> length xs < 2 ^ 32 \<longrightarrow>
       0 \<le> random_index r (length xs) \<and>
       random_index r (length xs) < int (length xs) \<and>
       req_proxy (build_options s r) = Some (xs ! nat (random_index r (length xs))) \<and>
       xs ! nat (random_index r (length xs)) \<in> set xs \<and>
       \<lfloor>r * real (length xs)\<rfloor> \<le> random_index r (length xs) \<and>
       random_index r (length xs) \<le> \<lfloor>r * real (length xs)\<rfloor> + 1 \<and>
       (\<forall>j. real_of_int j \<le> r * real (length xs) \<and>
             r * real (length xs) * (1 + 1 / 2 ^ 53) < real_of_int j + 1 \<longrightarrow>
             random_index r (length xs) = j)) \<and>
    trace (fetchUrl u k fin s) = trace s @ [Fetch u (build_options s (randoms s (drawn s)))] \<and>
    pending (fetchUrl u k fin s) = pending s @ [AwaitFetch u k fin]"
proof -
  have pool: "0 \<le> random_index r (length xs) \<and>
       random_index r (length xs) < int (length xs) \<and>
       pick_proxy r xs = Some (xs ! nat (random_index r (length xs))) \<and>
       xs ! nat (random_index r (length xs)) \<in> set xs \<and>
       \<lfloor>r * real (length xs)\<rfloor> \<le> random_index r (length xs) \<and>
       random_index r (length xs) \<le> \<lfloor>r * real (length xs)\<rfloor> + 1 \<and>
       (\<forall>j. real_of_int j \<le> r * real (length xs) \<and>
             r * real (length xs) * (1 + 1 / 2 ^ 53) < real_of_int j + 1 \<longrightarrow>
             random_index r (length xs) = j)"
    if ne: "xs \<noteq> []" and full: "[] \<notin> set xs" and len: "length xs < 2 ^ 32"
    for xs :: "string list"
  proof -
    let ?i = "random_index r (length xs)"
    have n: "0 < length xs" using ne by simp
    note b = random_index_bounds [OF assms n len]
    have i0: "0 \<le> ?i" and i1: "?i < int (length xs)"
      and lo: "\<lfloor>r * real (length xs)\<rfloor> \<le> ?i" and hi: "?i \<le> \<lfloor>r * real (length xs)\<rfloor> + 1"
      using b by simp_all
    have inside: "nat ?i < length xs" using i0 i1 by linarith
    then have mem: "xs ! nat ?i \<in> set xs" by simp
    with full have "xs ! nat ?i \<noteq> []" by metis
    then have pick: "pick_proxy r xs = Some (xs ! nat ?i)"
      using i0 i1 by (simp add: pick_proxy_def Let_def)
    have share: "?i = j"
      if h: "real_of_int j \<le> r * real (length xs) \<and>
             r * real (length xs) * (1 + 1 / 2 ^ 53) < real_of_int j + 1" for j
    proof -
      have "0 \<le> r * real (length xs)" using assms(1) by simp
      then have "r * real (length xs) \<le> r * real (length xs) * (1 + 1 / 2 ^ 53)"
        by (simp add: algebra_simps)
      with h have "r * real (length xs) < real_of_int j + 1" by linarith
      with h have fl: "\<lfloor>r * real (length xs)\<rfloor> = j" by (simp add: floor_eq_iff)
      have "r * real (length xs) * (1 + 1 / 2 ^ 53) < of_int \<lfloor>r * real (length xs)\<rfloor> + 1"
        using h by (simp only: fl)
      with b have "?i = \<lfloor>r * real (length xs)\<rfloor>" by blast
      with fl show ?thesis by simp
    qed
    have share': "\<forall>j. real_of_int j \<le> r * real (length xs) \<and>
             r * real (length xs) * (1 + 1 / 2 ^ 53) < real_of_int j + 1 \<longrightarrow> ?i = j"
      using share by blast
    show ?thesis
      by (intro conjI i0 i1 pick mem lo hi share')
  qed
  show ?thesis
    using pool by (simp add: build_options_def)
qed

theorem request_builder_witness:
  "(0::real) \<le> 6004799503160661 / 2 ^ 53 \<and>
   (6004799503160661::real) / 2 ^ 53 \<le> 1 - 1 / 2 ^ 53 \<and>
   proxy (setProxy (Pool [''p1'', ''p2'', ''p3'']) (setCookies ''k=v'' (Crawler 1 zeros)))
     = Pool [''p1'', ''p2'', ''p3''] \<and>
   [''p1'', ''p2'', ''p3''] \<noteq> [] \<and> [] \<notin> set [''p1'', ''p2'', ''p3''] \<and>
   length [''p1'', ''p2'', ''p3''] < 2 ^ 32 \<and>
   req_method (build_options
       (setProxy (Pool [''p1'', ''p2'', ''p3'']) (setCookies ''k=v'' (Crawler 1 zeros)))
       (6004799503160661 / 2 ^ 53)) = ''GET'' \<and>
   req_headers (build_options
       (setProxy (Pool [''p1'', ''p2'', ''p3'']) (setCookies ''k=v'' (Crawler 1 zeros)))
       (6004799503160661 / 2 ^ 53)) ''Cookie'' = Some ''k=v'' \<and>
   req_proxy (build_options
       (setProxy (Pool [''p1'', ''p2'', ''p3'']) (setCookies ''k=v'' (Crawler 1 zeros)))
       (6004799503160661 / 2 ^ 53)) = Some ''p3'' \<and>
   req_proxy (build_options (setProxy (Single ''p0'') (Crawler 1 zeros))
       (6004799503160661 / 2 ^ 53)) = Some ''p0'' \<and>
   req_proxy (build_options (Crawler 1 zeros) (6004799503160661 / 2 ^ 53)) = None"
proof -
  let ?r = "6004799503160661 / 2 ^ 53 :: real"
  let ?s = "setProxy (Pool [''p1'', ''p2'', ''p3'']) (setCookies ''k=v'' (Crawler 1 zeros))"
  have h1: "0 \<le> ?r" by simp
  have h2: "?r \<le> 1 - 1 / 2 ^ 53" by simp
  have px: "proxy ?s = Pool [''p1'', ''p2'', ''p3'']" by (simp add: setProxy_def)
  have ck: "cookies ?s = ''k=v''" by (simp add: setProxy_def setCookies_def)
  have l: "[''p1'', ''p2'', ''p3''] \<noteq> []" "[] \<notin> set [''p1'', ''p2'', ''p3'']"
    "length [''p1'', ''p2'', ''p3''] < 2 ^ 32"
    by simp_all
  note th = request_builder [OF h1 h2, of ?s]
  have m: "req_method (build_options ?s ?r) = ''GET''"
    by (rule th [THEN conjunct1])
  have hd: "req_headers (build_options ?s ?r) ''Cookie'' = Some ''k=v''"
    using th [THEN conjunct2, THEN conjunct1] by (simp add: ck)
  note pool = th [THEN conjunct2, THEN conjunct2, THEN conjunct2, THEN conjunct2,
      THEN conjunct1, rule_format, of "[''p1'', ''p2'', ''p3'']"]
  have len3: "length [''p1'', ''p2'', ''p3''] = 3" by simp
  have idx: "random_index ?r (length [''p1'', ''p2'', ''p3'']) = 2"
    by (simp only: len3 random_index_rounds_up)
  have "req_proxy (build_options ?s ?r) =
      Some ([''p1'', ''p2'', ''p3''] ! nat (random_index ?r (length [''p1'', ''p2'', ''p3''])))"
    using pool px l by blast
  then have p3: "req_proxy (build_options ?s ?r) = Some ''p3''"
    by (simp only: idx) simp
  have p0: "req_proxy (build_options (setProxy (Single ''p0'') (Crawler 1 zeros)) ?r) = Some ''p0''"
    using request_builder [OF h1 h2, of "setProxy (Single ''p0'') (Crawler 1 zeros)",
        THEN conjunct2, THEN conjunct2, THEN conjunct2, THEN conjunct1]
    by (simp add: setProxy_def)
  have pn: "req_proxy (build_options (Crawler 1 zeros) ?r) = None"
    using request_builder [OF h1 h2, of "Crawler 1 zeros",
        THEN conjunct2, THEN conjunct2, THEN conjunct1]
    by (simp add: Crawler_def)
  show ?thesis
    by (intro conjI h1 h2 px l m hd p3 p0 pn)
qed




end
